theory Spec2Isabelle
  imports
    Complex_Main
    "HOL-Library.Product_Lexorder"
    "HOL-Library.Char_ord"
    "HOL-Library.List_Lexorder"
begin

section \<open>Tensors and ID-based triples\<close>

text \<open>
  The triples factories of \<^verbatim>\<open>pykeen/triples/triples_factory.py\<close> receive a
  \<^verbatim>\<open>torch.Tensor\<close>. The constructor looks at its rank, its second dimension, its
  dtype and its entries; a tensor is therefore a dtype, a shape and the entries in
  row-major order. For a floating-point or complex tensor the constructor raises before it
  reads an entry, so the entries are integers.
\<close>

datatype torch_dtype =
  Bool | UInt8 | Int8 | Int16 | Int32 | Int64 | Float32 | Float64 | Complex64

fun dtype_is_floating_point :: "torch_dtype \<Rightarrow> bool" where
  "dtype_is_floating_point Float32 = True"
| "dtype_is_floating_point Float64 = True"
| "dtype_is_floating_point _ = False"

fun dtype_is_complex :: "torch_dtype \<Rightarrow> bool" where
  "dtype_is_complex Complex64 = True"
| "dtype_is_complex _ = False"

record tensor =
  dtype :: torch_dtype
  shape :: "nat list"
  elems :: "int list"

type_synonym triple = "int \<times> int \<times> int"

type_synonym MappedTriples = "triple list"

text \<open>The rows of an \<open>(n, 3)\<close> tensor, read off its row-major entries.\<close>

fun rows :: "int list \<Rightarrow> MappedTriples" where
  "rows (h # r # t # xs) = (h, r, t) # rows xs"
| "rows _ = []"

fun flatten :: "MappedTriples \<Rightarrow> int list" where
  "flatten [] = []"
| "flatten ((h, r, t) # ts) = h # r # t # flatten ts"

text \<open>A stored \<^verbatim>\<open>mapped_triples\<close> (dtype long, shape \<open>(n, 3)\<close>) seen as a tensor again.\<close>

definition as_tensor :: "MappedTriples \<Rightarrow> tensor" where
  "as_tensor ts = \<lparr>dtype = Int64, shape = [length ts, 3], elems = flatten ts\<rparr>"



text \<open>Column-wise minima and maxima, as the error message of the constructor prints them
  (\<^verbatim>\<open>mapped_triples.min(dim=0).values\<close>).\<close>

fun column_min :: "MappedTriples \<Rightarrow> int list" where
  "column_min [] = []"
| "column_min ((h, r, t) # ts) =
     [fold min (map fst ts) h, fold min (map (fst \<circ> snd) ts) r, fold min (map (snd \<circ> snd) ts) t]"

fun column_max :: "MappedTriples \<Rightarrow> int list" where
  "column_max [] = []"
| "column_max ((h, r, t) # ts) =
     [fold max (map fst ts) h, fold max (map (fst \<circ> snd) ts) r, fold max (map (snd \<circ> snd) ts) t]"

section \<open>Errors\<close>

datatype error =
    InvalidShape "nat list"
  | InvalidType torch_dtype
  | InvalidIds "int list" "int list"
  | EntityCountMismatch nat
  | RelationCountMismatch nat
  | InverseTriplesMismatch nat
  | EntityMappingMismatch nat
  | RelationMappingMismatch nat
  | EmptyMapping
  | LabelingCountMismatch
  | ZeroDivisionError
  | InvalidBatchSize
  | EmptyRange
  | IndexOutOfRange
  | EmptyReduction
  | NegativeLength
  | ScatterIndexError
  | InvalidCondensation
  | IdsWithoutMap
  | IndexExceedsDimensions
  | ScalarOverflow
  | EmptyDataSource

section \<open>Checking the ID range\<close>

text \<open>
  \<^verbatim>\<open>tensor < bound\<close> with a Python integer \<^verbatim>\<open>bound\<close>. A Python integer outside 64 bits
  is not accepted as a scalar. torch then checks that the scalar converts to the dtype of
  the tensor without overflow and raises otherwise; for an unsigned dtype a negative
  scalar down to minus the largest value passes this check and wraps around. The
  comparison is made in the dtype of the tensor (for a bool tensor, in int64) with the
  converted scalar, which \<open>scalar_in_dtype\<close> returns. Floating-point and complex tensors
  do not reach a comparison in the constructor.
\<close>

definition fits_int64 :: "int \<Rightarrow> bool" where
  "fits_int64 s \<longleftrightarrow> - 9223372036854775808 \<le> s \<and> s \<le> 9223372036854775807"

fun scalar_in_dtype :: "torch_dtype \<Rightarrow> int \<Rightarrow> error + int" where
  "scalar_in_dtype UInt8 s =
     (if s < - 255 \<or> 255 < s then Inl ScalarOverflow else Inr (s mod 256))"
| "scalar_in_dtype Int8 s = (if s < - 128 \<or> 127 < s then Inl ScalarOverflow else Inr s)"
| "scalar_in_dtype Int16 s = (if s < - 32768 \<or> 32767 < s then Inl ScalarOverflow else Inr s)"
| "scalar_in_dtype Int32 s =
     (if s < - 2147483648 \<or> 2147483647 < s then Inl ScalarOverflow else Inr s)"
| "scalar_in_dtype d s = (if fits_int64 s then Inr s else Inl ScalarOverflow)"

text \<open>The entries that \<^verbatim>\<open>mapped_triples[:, ::2]\<close> and \<^verbatim>\<open>mapped_triples[:, 1]\<close> select:
  those whose index along dimension 1 is even, respectively \<open>1\<close>. Both raise on a tensor
  with fewer than two dimensions, the second also when dimension 1 has fewer than two
  entries.\<close>

definition dim1_index :: "nat list \<Rightarrow> nat \<Rightarrow> nat" where
  "dim1_index shp i = (i div prod_list (drop 2 shp)) mod (shp ! 1)"

definition entries_at :: "(nat \<Rightarrow> bool) \<Rightarrow> tensor \<Rightarrow> int list" where
  "entries_at P mt =
     map snd (filter (\<lambda>(i, x). P (dim1_index (shape mt) i)) (enumerate 0 (elems mt)))"

text \<open>\<^verbatim>\<open>valid_triple_id_range\<close>. The three conditions are joined by Python's \<^verbatim>\<open>and\<close>:
  a condition is evaluated only when the ones before it hold, so a later comparison
  cannot raise once an earlier one has failed.\<close>

definition valid_triple_id_range :: "tensor \<Rightarrow> int \<Rightarrow> int \<Rightarrow> error + bool" where
  "valid_triple_id_range mt ne nr =
     (if \<not> list_all (\<lambda>x. 0 \<le> x) (elems mt) then Inr False
      else if length (shape mt) < 2 then Inl IndexOutOfRange
      else case scalar_in_dtype (dtype mt) ne of
        Inl e \<Rightarrow> Inl e
      | Inr ne' \<Rightarrow>
          if \<not> list_all (\<lambda>x. x < ne') (entries_at even mt) then Inr False
          else if shape mt ! 1 \<le> 1 then Inl IndexOutOfRange
          else (case scalar_in_dtype (dtype mt) nr of
            Inl e \<Rightarrow> Inl e
          | Inr nr' \<Rightarrow> Inr (list_all (\<lambda>x. x < nr') (entries_at (\<lambda>j. j = 1) mt))))"

section \<open>KGInfo and CoreTriplesFactory\<close>

record KGInfo =
  num_entities :: int
  num_relations :: int
  create_inverse_triples :: bool
  real_num_relations :: int

record 'v CoreTriplesFactory = KGInfo +
  mapped_triples :: MappedTriples
  metadata :: "string \<rightharpoonup> 'v"

text \<open>\<^verbatim>\<open>CoreTriplesFactory.__init__\<close>, with \<^verbatim>\<open>KGInfo.__init__\<close> inlined: the number of
  relations is doubled when inverse triples are created; the checks come in the order of
  the source (shape, dtype, ID range). The range is checked against the arguments and on
  the tensor as it was given, in its own dtype; the triples are stored converted to
  \<^verbatim>\<open>torch.long\<close>, which keeps every value.\<close>

definition CoreTriplesFactory_init ::
  "tensor \<Rightarrow> int \<Rightarrow> int \<Rightarrow> bool \<Rightarrow> (string \<rightharpoonup> 'v) option \<Rightarrow> error + 'v CoreTriplesFactory" where
  "CoreTriplesFactory_init mt ne nr civ md =
     (if length (shape mt) \<noteq> 2 \<or> shape mt ! 1 \<noteq> 3 then Inl (InvalidShape (shape mt))
      else if dtype_is_complex (dtype mt) \<or> dtype_is_floating_point (dtype mt)
        then Inl (InvalidType (dtype mt))
      else case valid_triple_id_range mt ne nr of
        Inl e \<Rightarrow> Inl e
      | Inr valid \<Rightarrow>
          if \<not> valid
          then Inl (InvalidIds (column_min (rows (elems mt))) (column_max (rows (elems mt))))
          else Inr \<lparr>num_entities = ne,
                    num_relations = (if civ then nr * 2 else nr),
                    create_inverse_triples = civ,
                    real_num_relations = nr,
                    mapped_triples = rows (elems mt),
                    metadata = (case md of None \<Rightarrow> Map.empty | Some m \<Rightarrow> m)\<rparr>)"

text \<open>\<^verbatim>\<open>clone_and_exchange_triples\<close>: the metadata is the dict display
  \<^verbatim>\<open>{**(extra_metadata or {}), **(self.metadata if keep_metadata else {})}\<close>, in which
  the entries of the second dict overwrite those of the first.\<close>

definition clone_and_exchange_triples ::
  "('v, 'm) CoreTriplesFactory_scheme \<Rightarrow> tensor \<Rightarrow> (string \<rightharpoonup> 'v) option \<Rightarrow> bool \<Rightarrow> bool option
     \<Rightarrow> error + 'v CoreTriplesFactory" where
  "clone_and_exchange_triples self mt extra_metadata keep_metadata civ =
     CoreTriplesFactory_init mt (num_entities self) (real_num_relations self)
       (case civ of None \<Rightarrow> create_inverse_triples self | Some b \<Rightarrow> b)
       (Some ((case extra_metadata of None \<Rightarrow> Map.empty | Some m \<Rightarrow> m)
                ++ (if keep_metadata then metadata self else Map.empty)))"

text \<open>The loop of \<^verbatim>\<open>CoreTriplesFactory.merge\<close> over \<^verbatim>\<open>enumerate(others)\<close>; the
  accumulator is the list \<^verbatim>\<open>mapped_triples\<close> of tensors to concatenate.\<close>

fun merge_loop ::
  "('v, 'm) CoreTriplesFactory_scheme \<Rightarrow> nat \<Rightarrow> ('v, 'm) CoreTriplesFactory_scheme list
     \<Rightarrow> MappedTriples list \<Rightarrow> error + MappedTriples list" where
  "merge_loop self i [] acc = Inr acc"
| "merge_loop self i (other # rest) acc =
     (if num_entities other \<noteq> num_entities self then Inl (EntityCountMismatch i)
      else if num_relations other \<noteq> num_relations self then Inl (RelationCountMismatch i)
      else if create_inverse_triples other \<noteq> create_inverse_triples self
        then Inl (InverseTriplesMismatch i)
      else merge_loop self (Suc i) rest (acc @ [mapped_triples other]))"

definition merge ::
  "'v CoreTriplesFactory \<Rightarrow> 'v CoreTriplesFactory list \<Rightarrow> error + 'v CoreTriplesFactory" where
  "merge self others =
     (if others = [] then Inr self
      else case merge_loop self 0 others [mapped_triples self] of
        Inl e \<Rightarrow> Inl e
      | Inr mts \<Rightarrow> clone_and_exchange_triples self (as_tensor (concat mts)) None True None)"

text \<open>A list comprehension whose elements may raise: the first error ends it.\<close>

fun collect :: "(error + 'a) list \<Rightarrow> error + 'a list" where
  "collect [] = Inr []"
| "collect (x # xs) =
     (case x of
        Inl e \<Rightarrow> Inl e
      | Inr y \<Rightarrow> (case collect xs of Inl e \<Rightarrow> Inl e | Inr ys \<Rightarrow> Inr (y # ys)))"

text \<open>\<^verbatim>\<open>CoreTriplesFactory.split\<close>. The splitting routine
  \<^verbatim>\<open>pykeen.triples.splitting.split\<close> is not part of the sources at hand; its result, the
  list of triple tensors, is the parameter \<open>parts\<close>.\<close>

definition split ::
  "'v CoreTriplesFactory \<Rightarrow> tensor list \<Rightarrow> error + 'v CoreTriplesFactory list" where
  "split self parts =
     collect (map (\<lambda>(i, triples).
                clone_and_exchange_triples self triples None True
                  (if i = 0 then None else Some False))
              (enumerate 0 parts))"

text \<open>What a constructed factory satisfies: the documented invariant of \<^verbatim>\<open>KGInfo\<close>, counts
  that passed the comparison with a tensor (so they fit 64 bits), and the ID range of the
  stored triples.\<close>

definition triple_in_range :: "int \<Rightarrow> int \<Rightarrow> triple \<Rightarrow> bool" where
  "triple_in_range ne nr x =
     (case x of (h, r, t) \<Rightarrow> 0 \<le> h \<and> h < ne \<and> 0 \<le> r \<and> r < nr \<and> 0 \<le> t \<and> t < ne)"

definition factory_inv :: "('v, 'm) CoreTriplesFactory_scheme \<Rightarrow> bool" where
  "factory_inv f \<longleftrightarrow>
     num_relations f = (if create_inverse_triples f then real_num_relations f * 2
                        else real_num_relations f) \<and>
     fits_int64 (num_entities f) \<and> fits_int64 (real_num_relations f) \<and>
     list_all (triple_in_range (num_entities f) (real_num_relations f)) (mapped_triples f)"

text \<open>Observers used to state what \<^verbatim>\<open>merge\<close> reports.\<close>

definition config_mismatch ::
  "('v, 'm) CoreTriplesFactory_scheme \<Rightarrow> ('v, 'm) CoreTriplesFactory_scheme \<Rightarrow> bool" where
  "config_mismatch self other \<longleftrightarrow>
     num_entities other \<noteq> num_entities self \<or>
     num_relations other \<noteq> num_relations self \<or>
     create_inverse_triples other \<noteq> create_inverse_triples self"

text \<open>The operand index an error message names (\<^verbatim>\<open>others[{i}]\<close>).\<close>

fun operand_index :: "error \<Rightarrow> nat option" where
  "operand_index (EntityCountMismatch i) = Some i"
| "operand_index (RelationCountMismatch i) = Some i"
| "operand_index (InverseTriplesMismatch i) = Some i"
| "operand_index (EntityMappingMismatch i) = Some i"
| "operand_index (RelationMappingMismatch i) = Some i"
| "operand_index _ = None"

fun is_config_mismatch :: "error \<Rightarrow> bool" where
  "is_config_mismatch (EntityCountMismatch i) = True"
| "is_config_mismatch (RelationCountMismatch i) = True"
| "is_config_mismatch (InverseTriplesMismatch i) = True"
| "is_config_mismatch _ = False"

section \<open>Condenser\<close>

text \<open>An ID tensor enters \<^verbatim>\<open>Condenser.make\<close> only through \<^verbatim>\<open>numel\<close>, \<^verbatim>\<open>max\<close> and
  \<^verbatim>\<open>unique\<close>, none of which sees its shape: it is the list of its entries.\<close>

record Condenser =
  condensation :: "int list option"

text \<open>Modelled from the spec: \<^verbatim>\<open>get_num_ids\<close> (of \<^verbatim>\<open>pykeen/triples/utils.py\<close>) is not
  among the sources; the spec gives it as \<open>1 + max ID observed\<close>. The maximum of an
  empty tensor raises.\<close>

fun get_num_ids :: "int list \<Rightarrow> error + int" where
  "get_num_ids [] = Inl EmptyReduction"
| "get_num_ids (v # vs) = Inr (fold max vs v + 1)"

text \<open>\<^verbatim>\<open>x.unique()\<close>: the distinct entries in ascending order.\<close>

definition torch_unique :: "int list \<Rightarrow> int list" where
  "torch_unique x = sort (remdups x)"

text \<open>\<^verbatim>\<open>torch.arange(k)\<close>, for \<open>k \<ge> 0\<close>.\<close>

definition arange :: "int \<Rightarrow> int list" where
  "arange k = map int [0..<nat k]"

text \<open>\<^verbatim>\<open>y.scatter_(dim=0, index=index, src=src)\<close> on 1-D tensors: \<open>y[index[i]] = src[i]\<close>
  for every position \<open>i\<close> of \<open>index\<close>; torch refuses an index longer than \<open>src\<close> and an
  index entry outside \<open>[0, len(y))\<close>.\<close>

fun scatter_loop :: "int list \<Rightarrow> (int \<times> int) list \<Rightarrow> int list" where
  "scatter_loop y [] = y"
| "scatter_loop y ((i, s) # rest) = scatter_loop (y[nat i := s]) rest"

definition scatter :: "int list \<Rightarrow> int list \<Rightarrow> int list \<Rightarrow> error + int list" where
  "scatter y index src =
     (if length src < length index \<or> list_ex (\<lambda>i. i < 0 \<or> int (length y) \<le> i) index
      then Inl ScatterIndexError
      else Inr (scatter_loop y (zip index src)))"

text \<open>The dataclass constructor with \<^verbatim>\<open>__post_init__\<close>: a condensation must be 1-D and
  integral (it is, as a list of integers) with entries between \<open>-1\<close> and its length.\<close>

definition Condenser_init :: "int list option \<Rightarrow> error + Condenser" where
  "Condenser_init c =
     (case c of
        None \<Rightarrow> Inr \<lparr>condensation = None\<rparr>
      | Some [] \<Rightarrow> Inl EmptyReduction
      | Some (v # vs) \<Rightarrow>
          if fold min vs v < - 1 \<or> int (length (v # vs)) \<le> fold max vs v
          then Inl InvalidCondensation
          else Inr \<lparr>condensation = Some (v # vs)\<rparr>)"

definition Condenser_make :: "int list \<Rightarrow> bool \<Rightarrow> error + Condenser" where
  "Condenser_make x enable =
     (if \<not> enable \<or> length x = 0 then Condenser_init None
      else case get_num_ids x of
        Inl e \<Rightarrow> Inl e
      | Inr k \<Rightarrow>
          if k < 0 then Inl NegativeLength
          else if torch_unique x = arange k then Condenser_init None
          else (case scatter (replicate (nat k) (- 1)) (torch_unique x) (arange k) of
                  Inl e \<Rightarrow> Inl e
                | Inr y \<Rightarrow> Condenser_init (Some y)))"

text \<open>\<^verbatim>\<open>Condenser.__call__\<close>: the identity when there is no condensation; otherwise the
  lookup \<^verbatim>\<open>condensation[x]\<close> (an index below zero counts from the end, one outside
  \<open>[-n, n)\<close> raises), refused when it meets a dropped ID.\<close>

definition Condenser_call :: "Condenser \<Rightarrow> int list \<Rightarrow> error + int list" where
  "Condenser_call self x =
     (case condensation self of
        None \<Rightarrow> Inr x
      | Some c \<Rightarrow>
          if list_ex (\<lambda>i. i < - int (length c) \<or> int (length c) \<le> i) x then Inl IndexOutOfRange
          else let y = map (\<lambda>i. c ! nat (if i < 0 then i + int (length c) else i)) x
               in if list_ex (\<lambda>v. v < 0) y then Inl IdsWithoutMap else Inr y)"

definition Condenser_bool :: "Condenser \<Rightarrow> bool" where
  "Condenser_bool self \<longleftrightarrow> condensation self \<noteq> None"

section \<open>Batched sLCWA instances\<close>





section \<open>LCWA instances\<close>

datatype TargetColumn = COLUMN_HEAD | COLUMN_RELATION | COLUMN_TAIL

text \<open>Modelled from the spec: \<^verbatim>\<open>get_target_column\<close> (of \<^verbatim>\<open>pykeen/constants.py\<close>) is not
  among the sources; the spec names the targets head, relation and tail, with tail the
  default.\<close>

definition get_target_column :: "TargetColumn option \<Rightarrow> TargetColumn" where
  "get_target_column target = (case target of None \<Rightarrow> COLUMN_TAIL | Some c \<Rightarrow> c)"

text \<open>\<^verbatim>\<open>mapped_triples[:, target]\<close> and \<^verbatim>\<open>mapped_triples[:, other_columns]\<close>, where
  \<^verbatim>\<open>other_columns\<close> are the two remaining columns in ascending order.\<close>

fun target_entry :: "TargetColumn \<Rightarrow> triple \<Rightarrow> int" where
  "target_entry COLUMN_HEAD (h, r, t) = h"
| "target_entry COLUMN_RELATION (h, r, t) = r"
| "target_entry COLUMN_TAIL (h, r, t) = t"

fun other_entries :: "TargetColumn \<Rightarrow> triple \<Rightarrow> int \<times> int" where
  "other_entries COLUMN_HEAD (h, r, t) = (r, t)"
| "other_entries COLUMN_RELATION (h, r, t) = (h, t)"
| "other_entries COLUMN_TAIL (h, r, t) = (h, r)"

text \<open>\<^verbatim>\<open>np.unique(..., return_inverse=True, axis=0)\<close>: the distinct rows in lexicographic
  order, and for every input row its position among them.\<close>

fun index_of :: "'a list \<Rightarrow> 'a \<Rightarrow> nat" where
  "index_of [] y = 0"
| "index_of (x # xs) y = (if x = y then 0 else Suc (index_of xs y))"

definition np_unique_inverse :: "('a::linorder) list \<Rightarrow> 'a list \<times> nat list" where
  "np_unique_inverse xs = (let u = sort (remdups xs) in (u, map (index_of u) xs))"

text \<open>A \<^verbatim>\<open>scipy.sparse\<close> matrix built from coordinates with the value \<open>1.0\<close> each:
  the constructor refuses a coordinate outside the shape, and the conversion to CSR adds up
  the values of equal coordinates, so an entry is the number of times its coordinate
  occurs.\<close>

record sparse_matrix =
  sparse_shape :: "nat \<times> nat"
  coords :: "(nat \<times> int) list"

definition coo_matrix :: "(nat \<times> int) list \<Rightarrow> nat \<times> int \<Rightarrow> error + sparse_matrix" where
  "coo_matrix cs shp =
     (if snd shp < 0 then Inl NegativeLength
      else if list_ex (\<lambda>(i, j). fst shp \<le> i \<or> j < 0 \<or> snd shp \<le> j) cs
        then Inl IndexExceedsDimensions
      else Inr \<lparr>sparse_shape = (fst shp, nat (snd shp)), coords = cs\<rparr>)"

definition entry :: "sparse_matrix \<Rightarrow> nat \<Rightarrow> nat \<Rightarrow> nat" where
  "entry m i j = count_list (coords m) (i, int j)"

text \<open>\<^verbatim>\<open>compressed[item, :].todense()\<close>, the dense row of \<^verbatim>\<open>__getitem__\<close>.\<close>

definition dense_row :: "sparse_matrix \<Rightarrow> nat \<Rightarrow> nat list" where
  "dense_row m i = map (entry m i) [0..<snd (sparse_shape m)]"

record LCWAInstances =
  pairs :: "(int \<times> int) list"
  compressed :: sparse_matrix
  lcwa_target :: TargetColumn

definition from_triples ::
  "MappedTriples \<Rightarrow> int \<Rightarrow> int \<Rightarrow> TargetColumn option \<Rightarrow> error + LCWAInstances" where
  "from_triples mt ne nr target =
     (let target = get_target_column target;
          (unique_pairs, pair_idx_to_triple_idx) = np_unique_inverse (map (other_entries target) mt);
          num_pairs = length unique_pairs;
          tails = map (target_entry target) mt;
          target_size = (if target = COLUMN_RELATION then nr else ne)
      in case coo_matrix (zip pair_idx_to_triple_idx tails) (num_pairs, target_size) of
           Inl e \<Rightarrow> Inl e
         | Inr c \<Rightarrow> Inr \<lparr>pairs = unique_pairs, compressed = c, lcwa_target = target\<rparr>)"

section \<open>Subgraph sampling\<close>

text \<open>Modelled from the spec: \<^verbatim>\<open>compute_compressed_adjacency_list\<close> (of
  \<^verbatim>\<open>pykeen/triples/utils.py\<close>) is not among the sources; the spec describes its result
  as \<open>degrees[node]\<close>, \<open>offset[node]\<close> (the start index into \<open>neighbors\<close>) and
  \<open>neighbors[edge_position] = (edge_id, other_node)\<close>.\<close>

record SubGraphSLCWAInstances =
  degrees :: "nat list"
  offset :: "nat list"
  neighbors :: "(nat \<times> nat) list"

text \<open>\<^verbatim>\<open>adj_list = self.neighbors[start:stop, :]\<close> with \<^verbatim>\<open>start = self.offset[v]\<close> and
  \<^verbatim>\<open>stop = start + self.degrees[v]\<close>.\<close>

definition adj_list_of :: "SubGraphSLCWAInstances \<Rightarrow> nat \<Rightarrow> (nat \<times> nat) list" where
  "adj_list_of self v = take (degrees self ! v) (drop (offset self ! v) (neighbors self))"

text \<open>The rejection loop \<^verbatim>\<open>while edge_picked[edge_number]: ...\<close> of
  \<^verbatim>\<open>subgraph_sample\<close>. Randomness is an oracle: \<open>draws n\<close> is the value of the \<open>n\<close>-th call
  \<^verbatim>\<open>torch.randint(chosen_node_degree, size=(1,))[0]\<close> of this step. The loop has no bound,
  so not returning is the value \<open>None\<close>.\<close>

partial_function (option) retry_loop ::
  "bool list \<Rightarrow> (nat \<times> nat) list \<Rightarrow> (nat \<Rightarrow> nat) \<Rightarrow> nat \<Rightarrow> nat \<times> nat
     \<Rightarrow> (error + nat \<times> nat) option" where
  "retry_loop edge_picked adj_list draws n chosen_edge =
     (if length edge_picked \<le> fst chosen_edge then Some (Inl IndexOutOfRange)
      else if edge_picked ! fst chosen_edge
        then (if length adj_list \<le> draws n then Some (Inl IndexOutOfRange)
              else retry_loop edge_picked adj_list draws (Suc n) (adj_list ! draws n))
      else Some (Inr chosen_edge))"

text \<open>The edge selection of one step of \<^verbatim>\<open>subgraph_sample\<close>, for the chosen vertex:
  \<^verbatim>\<open>torch.randint\<close> raises on the empty range of a vertex of degree \<open>0\<close>; otherwise a
  first edge is drawn and the loop redraws while the drawn edge is already picked.\<close>

definition select_edge ::
  "SubGraphSLCWAInstances \<Rightarrow> bool list \<Rightarrow> nat \<Rightarrow> (nat \<Rightarrow> nat) \<Rightarrow> (error + nat \<times> nat) option" where
  "select_edge self edge_picked chosen_vertex draws =
     (let chosen_node_degree = degrees self ! chosen_vertex;
          adj_list = adj_list_of self chosen_vertex
      in if chosen_node_degree = 0 then Some (Inl EmptyRange)
         else if length adj_list \<le> draws 0 then Some (Inl IndexOutOfRange)
         else retry_loop edge_picked adj_list draws 1 (adj_list ! draws 0))"

text \<open>The positions of the adjacency list whose edge is not yet picked, and the sequences
  of \<open>n\<close> draws (each below the degree \<open>d\<close>) that hit picked edges only: after them the loop
  is still retrying.\<close>

definition unpicked_positions :: "bool list \<Rightarrow> (nat \<times> nat) list \<Rightarrow> nat list" where
  "unpicked_positions edge_picked adj_list =
     filter (\<lambda>i. \<not> edge_picked ! fst (adj_list ! i)) [0..<length adj_list]"

definition retrying_draws :: "bool list \<Rightarrow> (nat \<times> nat) list \<Rightarrow> nat \<Rightarrow> nat list set" where
  "retrying_draws edge_picked adj_list n =
     {ds. length ds = n \<and> set ds \<subseteq> {i. i < length adj_list \<and> edge_picked ! fst (adj_list ! i)}}"

section \<open>Labelings and the label-aware TriplesFactory\<close>

text \<open>A Python \<^verbatim>\<open>dict\<close> with string keys is the list of its items in insertion order (the
  keys distinct); \<^verbatim>\<open>d.get(k, default)\<close> and the comparison \<^verbatim>\<open>d1 != d2\<close>, which ignores
  the order of the items, are read off it.\<close>

type_synonym 'a pydict = "(string \<times> 'a) list"

definition dict_get :: "('k \<times> 'a) list \<Rightarrow> 'k \<Rightarrow> 'a \<Rightarrow> 'a" where
  "dict_get d k dflt = (case map_of d k of None \<Rightarrow> dflt | Some v \<Rightarrow> v)"

definition dict_eq :: "('k \<times> 'a) list \<Rightarrow> ('k \<times> 'a) list \<Rightarrow> bool" where
  "dict_eq d1 d2 \<longleftrightarrow> set d1 = set d2"

type_synonym LabeledTriples = "(string \<times> string \<times> string) list"

record Labeling =
  label_to_id :: "int pydict"
  id_to_label :: "(int \<times> string) list"

text \<open>Modelled from the spec: \<^verbatim>\<open>invert_mapping\<close> (of \<^verbatim>\<open>pykeen/utils.py\<close>) is not among
  the sources; the spec gives \<^verbatim>\<open>id_to_label\<close> as the inverse of \<^verbatim>\<open>label_to_id\<close>. The
  items are swapped; looked up with \<open>map_of\<close>, the item inserted last wins, as in a
  dict comprehension.\<close>

definition invert_mapping :: "int pydict \<Rightarrow> (int \<times> string) list" where
  "invert_mapping mapping = rev (map (\<lambda>(key, v). (v, key)) mapping)"

definition Labeling_init :: "int pydict \<Rightarrow> Labeling" where
  "Labeling_init l2i = \<lparr>label_to_id = l2i, id_to_label = invert_mapping l2i\<rparr>"

text \<open>\<^verbatim>\<open>Labeling.label\<close> on one ID, and \<^verbatim>\<open>Labeling.max_id\<close>, whose \<^verbatim>\<open>max\<close> raises on an
  empty mapping.\<close>

definition Labeling_label :: "Labeling \<Rightarrow> int \<Rightarrow> string \<Rightarrow> string" where
  "Labeling_label self i unknown_label = dict_get (id_to_label self) i unknown_label"

definition max_id :: "Labeling \<Rightarrow> error + int" where
  "max_id self =
     (case map snd (label_to_id self) of
        [] \<Rightarrow> Inl EmptyMapping
      | v # vs \<Rightarrow> Inr (fold max vs v + 1))"

record 'v TriplesFactory = "'v CoreTriplesFactory" +
  entity_labeling :: Labeling
  relation_labeling :: Labeling

definition entity_to_id :: "('v, 'm) TriplesFactory_scheme \<Rightarrow> int pydict" where
  "entity_to_id self = label_to_id (entity_labeling self)"

definition relation_to_id :: "('v, 'm) TriplesFactory_scheme \<Rightarrow> int pydict" where
  "relation_to_id self = label_to_id (relation_labeling self)"

text \<open>\<^verbatim>\<open>TriplesFactory.__init__\<close>: the counts are taken from the labelings, or compared
  with them when given; then the constructor of the base class validates the triples.\<close>

definition TriplesFactory_init ::
  "tensor \<Rightarrow> int pydict \<Rightarrow> int pydict \<Rightarrow> bool \<Rightarrow> (string \<rightharpoonup> 'v) option \<Rightarrow> int option \<Rightarrow> int option
     \<Rightarrow> error + 'v TriplesFactory" where
  "TriplesFactory_init mt e2id r2id civ md ne nr =
     (case max_id (Labeling_init e2id) of
        Inl e \<Rightarrow> Inl e
      | Inr emax \<Rightarrow>
          if ne \<noteq> None \<and> ne \<noteq> Some emax then Inl LabelingCountMismatch
          else (case max_id (Labeling_init r2id) of
            Inl e \<Rightarrow> Inl e
          | Inr rmax \<Rightarrow>
              if nr \<noteq> None \<and> nr \<noteq> Some rmax then Inl LabelingCountMismatch
              else (case CoreTriplesFactory_init mt emax rmax civ md of
                Inl e \<Rightarrow> Inl e
              | Inr core \<Rightarrow>
                  Inr (CoreTriplesFactory.extend core
                        \<lparr>entity_labeling = Labeling_init e2id,
                         relation_labeling = Labeling_init r2id\<rparr>))))"

text \<open>The override of \<^verbatim>\<open>clone_and_exchange_triples\<close> in \<^verbatim>\<open>TriplesFactory\<close>.\<close>

definition TriplesFactory_clone_and_exchange_triples ::
  "'v TriplesFactory \<Rightarrow> tensor \<Rightarrow> (string \<rightharpoonup> 'v) option \<Rightarrow> bool \<Rightarrow> bool option
     \<Rightarrow> error + 'v TriplesFactory" where
  "TriplesFactory_clone_and_exchange_triples self mt extra_metadata keep_metadata civ =
     TriplesFactory_init mt (entity_to_id self) (relation_to_id self)
       (case civ of None \<Rightarrow> create_inverse_triples self | Some b \<Rightarrow> b)
       (Some ((case extra_metadata of None \<Rightarrow> Map.empty | Some m \<Rightarrow> m)
                ++ (if keep_metadata then metadata self else Map.empty)))
       None None"

text \<open>\<^verbatim>\<open>TriplesFactory.merge\<close>: the loop over \<^verbatim>\<open>enumerate(others)\<close> that compares the
  label mappings, then \<^verbatim>\<open>super().merge(*others)\<close>, whose call of
  \<^verbatim>\<open>self.clone_and_exchange_triples\<close> reaches the override.\<close>

fun label_loop :: "'v TriplesFactory \<Rightarrow> nat \<Rightarrow> 'v TriplesFactory list \<Rightarrow> error + unit" where
  "label_loop self i [] = Inr ()"
| "label_loop self i (other # rest) =
     (if \<not> dict_eq (entity_to_id other) (entity_to_id self) then Inl (EntityMappingMismatch i)
      else if \<not> dict_eq (relation_to_id other) (relation_to_id self)
        then Inl (RelationMappingMismatch i)
      else label_loop self (Suc i) rest)"

definition TriplesFactory_merge ::
  "'v TriplesFactory \<Rightarrow> 'v TriplesFactory list \<Rightarrow> error + 'v TriplesFactory" where
  "TriplesFactory_merge self others =
     (case label_loop self 0 others of
        Inl e \<Rightarrow> Inl e
      | Inr u \<Rightarrow>
          if others = [] then Inr self
          else (case merge_loop self 0 others [mapped_triples self] of
            Inl e \<Rightarrow> Inl e
          | Inr mts \<Rightarrow>
              TriplesFactory_clone_and_exchange_triples self (as_tensor (concat mts))
                None True None))"

definition label_mismatch :: "'v TriplesFactory \<Rightarrow> 'v TriplesFactory \<Rightarrow> bool" where
  "label_mismatch self other \<longleftrightarrow>
     \<not> dict_eq (entity_to_id other) (entity_to_id self)
     \<or> \<not> dict_eq (relation_to_id other) (relation_to_id self)"

fun is_label_mismatch :: "error \<Rightarrow> bool" where
  "is_label_mismatch (EntityMappingMismatch i) = True"
| "is_label_mismatch (RelationMappingMismatch i) = True"
| "is_label_mismatch _ = False"

section \<open>From labeled triples to IDs and back\<close>

definition INVERSE_SUFFIX :: string where
  "INVERSE_SUFFIX = ''_inverse''"

text \<open>\<^verbatim>\<open>str.endswith\<close>.\<close>

definition endswith :: "string \<Rightarrow> string \<Rightarrow> bool" where
  "endswith s suffix \<longleftrightarrow>
     length suffix \<le> length s \<and> drop (length s - length suffix) s = suffix"

text \<open>\<^verbatim>\<open>re.sub(f"{INVERSE_SUFFIX}$", "", x)\<close>: the pattern matches the suffix at the end of the
  string, or just before a newline that ends the string.\<close>

definition strip_inverse_suffix :: "string \<Rightarrow> string" where
  "strip_inverse_suffix x =
     (if endswith x INVERSE_SUFFIX then take (length x - length INVERSE_SUFFIX) x
      else if endswith x (INVERSE_SUFFIX @ [CHR 0x0A])
        then take (length x - length INVERSE_SUFFIX - 1) x @ [CHR 0x0A]
      else x)"

text \<open>\<^verbatim>\<open>create_entity_mapping\<close> and \<^verbatim>\<open>create_relation_mapping\<close>: the distinct labels,
  sorted, are numbered from \<open>0\<close>. The relation labels are sorted by the key of the source;
  \<open>remdups\<close> stands for the iteration order of the Python set, which matters only between
  labels of equal key.\<close>

definition enumerate_labels :: "string list \<Rightarrow> int pydict" where
  "enumerate_labels labels = zip labels (map int [0..<length labels])"

definition create_entity_mapping :: "LabeledTriples \<Rightarrow> int pydict" where
  "create_entity_mapping triples =
     enumerate_labels (sort (remdups (map fst triples @ map (snd \<circ> snd) triples)))"

definition create_relation_mapping :: "string list \<Rightarrow> int pydict" where
  "create_relation_mapping relations =
     enumerate_labels
       (sort_key (\<lambda>x. (strip_inverse_suffix x, endswith x INVERSE_SUFFIX)) (remdups relations))"

text \<open>\<^verbatim>\<open>_map_triples_elements_to_ids\<close>: a label without ID gets \<open>-1\<close>; when some entry is
  negative the rows with a negative entry are dropped; \<^verbatim>\<open>np.unique\<close> then sorts the rows
  and removes duplicates.\<close>

definition map_triples_elements_to_ids ::
  "LabeledTriples \<Rightarrow> int pydict \<Rightarrow> int pydict \<Rightarrow> MappedTriples" where
  "map_triples_elements_to_ids triples e2id r2id =
     (if triples = [] then []
      else let ids = map (\<lambda>(h, r, t). (dict_get e2id h (- 1), dict_get r2id r (- 1),
                                        dict_get e2id t (- 1))) triples;
               non_mappable = (\<lambda>(h, r, t). h < 0 \<or> r < 0 \<or> t < 0)
           in sort (remdups (if list_ex non_mappable ids
                             then filter (\<lambda>x. \<not> non_mappable x) ids else ids)))"

text \<open>\<^verbatim>\<open>TriplesFactory.from_labeled_triples\<close>. The helper \<^verbatim>\<open>compact_mapping\<close> (of
  \<^verbatim>\<open>pykeen/utils.py\<close>) is not among the sources, and the spec does not describe it: it is
  the parameter \<open>compact_mapping\<close>, any function from dicts to dicts.\<close>

definition from_labeled_triples ::
  "(int pydict \<Rightarrow> int pydict) \<Rightarrow> LabeledTriples \<Rightarrow> bool \<Rightarrow> int pydict option \<Rightarrow> int pydict option
     \<Rightarrow> bool \<Rightarrow> bool \<Rightarrow> (string \<rightharpoonup> 'v) option \<Rightarrow> error + 'v TriplesFactory" where
  "from_labeled_triples compact_mapping triples civ entity_to_id_arg relation_to_id_arg
       compact_id filter_out_candidate_inverse_relations md =
     (let suspected = filter (\<lambda>r. endswith r INVERSE_SUFFIX)
                        (sort (remdups (map (fst \<circ> snd) triples)));
          triples = (if filter_out_candidate_inverse_relations \<and> suspected \<noteq> []
                     then filter (\<lambda>(h, r, t). r \<notin> set suspected) triples else triples);
          e2id = (case entity_to_id_arg of None \<Rightarrow> create_entity_mapping triples | Some m \<Rightarrow> m);
          e2id = (if compact_id then compact_mapping e2id else e2id);
          r2id = (case relation_to_id_arg of
                    None \<Rightarrow> create_relation_mapping (map (fst \<circ> snd) triples) | Some m \<Rightarrow> m);
          r2id = (if compact_id then compact_mapping r2id else r2id);
          mapped = map_triples_elements_to_ids triples e2id r2id
      in TriplesFactory_init (as_tensor mapped) e2id r2id civ md None None)"

text \<open>\<^verbatim>\<open>TriplesFactory.label_triples\<close> and \<^verbatim>\<open>TriplesFactory.map_triples\<close>.\<close>

definition label_triples ::
  "('v, 'm) TriplesFactory_scheme \<Rightarrow> MappedTriples \<Rightarrow> string \<Rightarrow> string option \<Rightarrow> LabeledTriples" where
  "label_triples self triples unknown_entity_label unknown_relation_label =
     (if length triples = 0 then []
      else let unknown_relation_label =
                 (case unknown_relation_label of None \<Rightarrow> unknown_entity_label | Some l \<Rightarrow> l)
           in map (\<lambda>(h, r, t).
                    (Labeling_label (entity_labeling self) h unknown_entity_label,
                     Labeling_label (relation_labeling self) r unknown_relation_label,
                     Labeling_label (entity_labeling self) t unknown_entity_label)) triples)"

definition map_triples :: "('v, 'm) TriplesFactory_scheme \<Rightarrow> LabeledTriples \<Rightarrow> MappedTriples" where
  "map_triples self triples =
     map_triples_elements_to_ids triples (entity_to_id self) (relation_to_id self)"

section \<open>Basic facts\<close>

lemma rows_flatten: "rows (flatten ts) = ts"
  by (induction ts) auto

lemma scalar_in_dtype_fits:
  "scalar_in_dtype d s = Inr s' \<Longrightarrow> fits_int64 s"
  by (cases d) (auto simp: fits_int64_def split: if_splits)

lemma scalar_in_int64: "fits_int64 s \<Longrightarrow> scalar_in_dtype Int64 s = Inr s"
  by simp

lemma filter_enumerate_rows:
  "k mod 3 = 0 \<Longrightarrow> length xs mod 3 = 0 \<Longrightarrow>
   map snd (filter (\<lambda>(i, x). P (i mod 3)) (enumerate k xs))
     = concat (map (\<lambda>(h, r, t). (if P 0 then [h] else []) @ (if P 1 then [r] else [])
                                  @ (if P 2 then [t] else [])) (rows xs))"
proof (induction xs arbitrary: k rule: rows.induct)
  case (1 h r t xs)
  from "1.prems"(1) have m: "Suc k mod 3 = 1" "Suc (Suc k) mod 3 = 2" "Suc (Suc (Suc k)) mod 3 = 0"
    by presburger+
  from "1.prems"(2) have "length xs mod 3 = 0" by simp
  from "1.IH"[OF m(3) this] m "1.prems"(1) show ?case by (simp add: split_beta)
qed simp_all

lemma entries_at_rows:
  assumes "length (shape mt) = 2" "shape mt ! 1 = 3" "length (elems mt) = prod_list (shape mt)"
  shows "set (entries_at even mt) = (\<Union>(h, r, t) \<in> set (rows (elems mt)). {h, t})"
    and "set (entries_at (\<lambda>j. j = 1) mt) = (\<lambda>(h, r, t). r) ` set (rows (elems mt))"
proof -
  from assms(1,2) obtain n where shp: "shape mt = [n, 3]"
    by (cases "shape mt"; cases "tl (shape mt)") auto
  with assms(3) have len: "length (elems mt) mod 3 = 0" by simp
  have d: "dim1_index (shape mt) i = i mod 3" for i
    by (simp add: dim1_index_def shp)
  have "entries_at P mt = concat (map (\<lambda>(h, r, t). (if P 0 then [h] else [])
      @ (if P 1 then [r] else []) @ (if P 2 then [t] else [])) (rows (elems mt)))" for P
    unfolding entries_at_def d using filter_enumerate_rows[OF _ len, of 0 P] by simp
  then show "set (entries_at even mt) = (\<Union>(h, r, t) \<in> set (rows (elems mt)). {h, t})"
    and "set (entries_at (\<lambda>j. j = 1) mt) = (\<lambda>(h, r, t). r) ` set (rows (elems mt))"
    by (auto simp: split_beta)
qed

lemma set_elems_rows:
  assumes "length xs mod 3 = 0"
  shows "set xs = (\<Union>(h, r, t) \<in> set (rows xs). {h, r, t})"
  using assms by (induction xs rule: rows.induct) auto

text \<open>When both bounds convert to the dtype of the tensor unchanged, the check returns
  whether every triple is within the bounds.\<close>

lemma valid_triple_id_range_exact:
  assumes "length (shape mt) = 2" "shape mt ! 1 = 3" "length (elems mt) = prod_list (shape mt)"
    and "scalar_in_dtype (dtype mt) ne = Inr ne" "scalar_in_dtype (dtype mt) nr = Inr nr"
  shows "valid_triple_id_range mt ne nr = Inr (list_all (triple_in_range ne nr) (rows (elems mt)))"
proof -
  from assms(1,2) obtain n where shp: "shape mt = [n, 3]"
    by (cases "shape mt"; cases "tl (shape mt)") auto
  with assms(3) have len: "length (elems mt) mod 3 = 0" by simp
  note e = entries_at_rows[OF assms(1-3)] and s = set_elems_rows[OF len]
  let ?nn = "list_all (\<lambda>x. 0 \<le> x) (elems mt)"
  let ?en = "list_all (\<lambda>x. x < ne) (entries_at even mt)"
  let ?rl = "list_all (\<lambda>x. x < nr) (entries_at (\<lambda>j. j = 1) mt)"
  have "valid_triple_id_range mt ne nr = Inr (?nn \<and> ?en \<and> ?rl)"
    using assms(1,2,4,5) by (simp add: valid_triple_id_range_def)
  moreover have "(?nn \<and> ?en \<and> ?rl) = list_all (triple_in_range ne nr) (rows (elems mt))"
  proof -
    have "?nn \<longleftrightarrow> (\<forall>(h, r, t) \<in> set (rows (elems mt)). 0 \<le> h \<and> 0 \<le> r \<and> 0 \<le> t)"
      unfolding list_all_iff by (subst s) auto
    moreover have "?en \<longleftrightarrow> (\<forall>(h, r, t) \<in> set (rows (elems mt)). h < ne \<and> t < ne)"
      unfolding list_all_iff e by auto
    moreover have "?rl \<longleftrightarrow> (\<forall>(h, r, t) \<in> set (rows (elems mt)). r < nr)"
      unfolding list_all_iff e by auto
    ultimately show ?thesis
      unfolding list_all_iff triple_in_range_def by auto
  qed
  ultimately show ?thesis by simp
qed

lemma init_Inr_fields:
  assumes "CoreTriplesFactory_init mt ne nr civ md = Inr f"
  shows "f = \<lparr>num_entities = ne, num_relations = (if civ then nr * 2 else nr),
                create_inverse_triples = civ, real_num_relations = nr,
                mapped_triples = rows (elems mt),
                metadata = (case md of None \<Rightarrow> Map.empty | Some m \<Rightarrow> m)\<rparr>"
    and "valid_triple_id_range mt ne nr = Inr True"
    and "length (shape mt) = 2" "shape mt ! 1 = 3"
  using assms
  by (auto simp: CoreTriplesFactory_init_def split: if_splits sum.splits)

lemma init_as_tensor:
  assumes "fits_int64 ne" "fits_int64 nr"
  shows "CoreTriplesFactory_init (as_tensor ts) ne nr civ md =
     (if list_all (triple_in_range ne nr) ts
      then Inr \<lparr>num_entities = ne, num_relations = (if civ then nr * 2 else nr),
                create_inverse_triples = civ, real_num_relations = nr,
                mapped_triples = ts,
                metadata = (case md of None \<Rightarrow> Map.empty | Some m \<Rightarrow> m)\<rparr>
      else Inl (InvalidIds (column_min ts) (column_max ts)))"
proof -
  have shp: "length (shape (as_tensor ts)) = 2" "shape (as_tensor ts) ! 1 = 3"
    by (simp_all add: as_tensor_def)
  have len: "length (elems (as_tensor ts)) = prod_list (shape (as_tensor ts))"
    by (induction ts) (auto simp: as_tensor_def)
  have dt: "dtype (as_tensor ts) = Int64" by (simp add: as_tensor_def)
  have r: "rows (elems (as_tensor ts)) = ts"
    by (simp add: as_tensor_def rows_flatten)
  have "valid_triple_id_range (as_tensor ts) ne nr = Inr (list_all (triple_in_range ne nr) ts)"
    using valid_triple_id_range_exact[OF shp len, of ne nr] assms
    by (simp only: dt scalar_in_int64 r)
  then show ?thesis
    unfolding CoreTriplesFactory_init_def using shp by (simp add: dt r)
qed

lemma init_establishes_inv:
  assumes "CoreTriplesFactory_init mt ne nr civ md = Inr f"
    and "length (elems mt) = prod_list (shape mt)"
    and "scalar_in_dtype (dtype mt) ne = Inr ne" "scalar_in_dtype (dtype mt) nr = Inr nr"
  shows "factory_inv f"
proof -
  note i = init_Inr_fields[OF assms(1)]
  from valid_triple_id_range_exact[OF i(3,4) assms(2,3,4)] i(2)
  have "list_all (triple_in_range ne nr) (rows (elems mt))" by simp
  moreover have "fits_int64 ne" "fits_int64 nr"
    using assms(3,4) scalar_in_dtype_fits by blast+
  ultimately show ?thesis by (simp add: i(1) factory_inv_def)
qed

section \<open>Metadata of a cloned factory\<close>

lemma clone_fields:
  assumes "clone_and_exchange_triples self mt extra keep civ = Inr f"
  shows "num_entities f = num_entities self"
    and "real_num_relations f = real_num_relations self"
    and "create_inverse_triples f = (case civ of None \<Rightarrow> create_inverse_triples self | Some b \<Rightarrow> b)"
    and "num_relations f = (if create_inverse_triples f then real_num_relations self * 2
                            else real_num_relations self)"
    and "mapped_triples f = rows (elems mt)"
    and "metadata f = (case extra of None \<Rightarrow> Map.empty | Some m \<Rightarrow> m)
                        ++ (if keep then metadata self else Map.empty)"
  using init_Inr_fields(1)[OF assms[unfolded clone_and_exchange_triples_def]]
  by simp_all

lemma clone_as_tensor:
  assumes "list_all (triple_in_range (num_entities self) (real_num_relations self)) ts"
    and "fits_int64 (num_entities self)" "fits_int64 (real_num_relations self)"
  shows "clone_and_exchange_triples self (as_tensor ts) extra keep civ =
     Inr \<lparr>num_entities = num_entities self,
          num_relations = (if (case civ of None \<Rightarrow> create_inverse_triples self | Some b \<Rightarrow> b)
                           then real_num_relations self * 2 else real_num_relations self),
          create_inverse_triples = (case civ of None \<Rightarrow> create_inverse_triples self | Some b \<Rightarrow> b),
          real_num_relations = real_num_relations self,
          mapped_triples = ts,
          metadata = (case extra of None \<Rightarrow> Map.empty | Some m \<Rightarrow> m)
                       ++ (if keep then metadata self else Map.empty)\<rparr>"
  using assms by (simp add: clone_and_exchange_triples_def init_as_tensor)

text \<open>
  Claim C1. The claim: with \<^verbatim>\<open>keep_metadata=True\<close> the clone has the counts of the source
  and the union of both metadata dicts, the value of \<^verbatim>\<open>extra_metadata\<close> winning on a
  colliding key. The code builds \<^verbatim>\<open>{**extra_metadata, **self.metadata}\<close>: counts and union
  are as claimed, but on a colliding key the value kept from the source factory wins, for
  every factory and every key.
\<close>

theorem C1_clone_source_metadata_wins:
  assumes "clone_and_exchange_triples self mt (Some extra) True None = Inr f"
  shows "num_entities f = num_entities self
    \<and> real_num_relations f = real_num_relations self
    \<and> dom (metadata f) = dom extra \<union> dom (metadata self)
    \<and> (\<forall>k v. metadata self k = Some v \<longrightarrow> metadata f k = Some v)
    \<and> (\<forall>k. metadata self k = None \<longrightarrow> metadata f k = extra k)"
proof -
  have m: "metadata f = extra ++ metadata self"
    using clone_fields(6)[OF assms] by simp
  show ?thesis
    using clone_fields(1,2)[OF assms] unfolding m
    by (auto simp: map_add_def split: option.splits)
qed

theorem C1_clone_source_metadata_wins_witness:
  "clone_and_exchange_triples
     \<lparr>num_entities = 2, num_relations = 1, create_inverse_triples = False,
      real_num_relations = 1, mapped_triples = [(0, 0, 1)],
      metadata = [''path'' \<mapsto> (1::int)]\<rparr>
     (as_tensor [(1, 0, 0)]) (Some [''path'' \<mapsto> 2]) True None
   = Inr \<lparr>num_entities = 2, num_relations = 1, create_inverse_triples = False,
          real_num_relations = 1, mapped_triples = [(1, 0, 0)],
          metadata = [''path'' \<mapsto> 1]\<rparr>
   \<and> [''path'' \<mapsto> (2::int)] ''path'' = Some 2
   \<and> metadata \<lparr>num_entities = 2, num_relations = 1, create_inverse_triples = False,
          real_num_relations = 1, mapped_triples = [(1, 0, 0)],
          metadata = [''path'' \<mapsto> (1::int)]\<rparr> ''path'' = Some 1"
proof -
  let ?self = "\<lparr>num_entities = 2, num_relations = 1, create_inverse_triples = False,
      real_num_relations = 1, mapped_triples = [(0, 0, 1)],
      metadata = [''path'' \<mapsto> (1::int)]\<rparr>"
  let ?f = "\<lparr>num_entities = 2, num_relations = 1, create_inverse_triples = False,
          real_num_relations = 1, mapped_triples = [(1, 0, 0)],
          metadata = [''path'' \<mapsto> (1::int)]\<rparr>"
  have run: "clone_and_exchange_triples ?self (as_tensor [(1, 0, 0)])
      (Some [''path'' \<mapsto> 2]) True None = Inr ?f"
    by (simp add: clone_as_tensor triple_in_range_def fits_int64_def)
  from C1_clone_source_metadata_wins[OF run] have "metadata ?f ''path'' = Some 1"
    by simp
  with run show ?thesis by simp
qed

section \<open>Merging factories\<close>

lemma merge_loop_all_match:
  "\<forall>x \<in> set others. \<not> config_mismatch self x \<Longrightarrow>
   merge_loop self i others acc = Inr (acc @ map mapped_triples others)"
  by (induction others arbitrary: i acc) (auto simp: config_mismatch_def)

lemma merge_loop_first_mismatch:
  assumes "k < length others" "config_mismatch self (others ! k)"
    and "\<forall>j < k. \<not> config_mismatch self (others ! j)"
  shows "\<exists>e. merge_loop self i others acc = Inl e \<and> is_config_mismatch e
            \<and> operand_index e = Some (i + k)"
  using assms
proof (induction others arbitrary: i acc k)
  case Nil
  then show ?case by simp
next
  case (Cons x xs)
  show ?case
  proof (cases k)
    case 0
    with Cons.prems show ?thesis by (auto simp: config_mismatch_def)
  next
    case (Suc k')
    from Cons.prems(3) Suc have x: "\<not> config_mismatch self x" by auto
    have "\<exists>e. merge_loop self (Suc i) xs (acc @ [mapped_triples x]) = Inl e
        \<and> is_config_mismatch e \<and> operand_index e = Some (Suc i + k')"
    proof (rule Cons.IH)
      show "k' < length xs" using Cons.prems(1) Suc by simp
      show "config_mismatch self (xs ! k')" using Cons.prems(2) Suc by simp
      show "\<forall>j<k'. \<not> config_mismatch self (xs ! j)"
        using Cons.prems(3) Suc by (metis Suc_less_eq nth_Cons_Suc)
    qed
    with x Suc show ?thesis by (auto simp: config_mismatch_def)
  qed
qed

lemma first_mismatch_exists:
  assumes "\<exists>i < length others. config_mismatch self (others ! i)"
  shows "\<exists>k < length others. config_mismatch self (others ! k)
            \<and> (\<forall>j < k. \<not> config_mismatch self (others ! j))"
proof -
  let ?P = "\<lambda>i. i < length others \<and> config_mismatch self (others ! i)"
  from assms have ex: "\<exists>i. ?P i" by blast
  have "?P (LEAST i. ?P i)" using ex by (rule LeastI_ex)
  moreover have "\<forall>j < (LEAST i. ?P i). \<not> config_mismatch self (others ! j)"
  proof (intro allI impI)
    fix j assume j: "j < (LEAST i. ?P i)"
    then have "\<not> ?P j" by (rule not_less_Least)
    moreover have "j < length others" using j \<open>?P (LEAST i. ?P i)\<close> by simp
    ultimately show "\<not> config_mismatch self (others ! j)" by simp
  qed
  ultimately show ?thesis by blast
qed

lemma matching_real_num_relations:
  assumes "factory_inv self" "factory_inv other" "\<not> config_mismatch self other"
  shows "real_num_relations other = real_num_relations self"
    and "num_entities other = num_entities self"
  using assms by (auto simp: factory_inv_def config_mismatch_def split: if_splits)

text \<open>
  Claim C3. \<^verbatim>\<open>merge\<close> raises a configuration-mismatch error that names the first
  operand differing in \<^verbatim>\<open>num_entities\<close>, \<^verbatim>\<open>num_relations\<close> or
  \<^verbatim>\<open>create_inverse_triples\<close>; when every operand matches (all of them constructed
  factories), it returns a factory holding the concatenation of all triples, so its triple
  count is the sum of the operands' counts and nothing is deduplicated.
\<close>

theorem C3_merge_mismatch_or_sum:
  "((\<exists>i < length others. config_mismatch self (others ! i)) \<longrightarrow>
      (\<exists>e k. merge self others = Inl e \<and> is_config_mismatch e \<and> operand_index e = Some k
         \<and> k < length others \<and> config_mismatch self (others ! k)
         \<and> (\<forall>j < k. \<not> config_mismatch self (others ! j))))
   \<and> (factory_inv self \<and> (\<forall>x \<in> set others. factory_inv x \<and> \<not> config_mismatch self x) \<longrightarrow>
      (\<exists>f. merge self others = Inr f
         \<and> mapped_triples f = mapped_triples self @ concat (map mapped_triples others)
         \<and> length (mapped_triples f)
             = length (mapped_triples self) + sum_list (map (length \<circ> mapped_triples) others)))"
proof (intro conjI impI)
  assume "\<exists>i < length others. config_mismatch self (others ! i)"
  then obtain k where k: "k < length others" "config_mismatch self (others ! k)"
      "\<forall>j < k. \<not> config_mismatch self (others ! j)"
    using first_mismatch_exists by blast
  then obtain e where e: "merge_loop self 0 others [mapped_triples self] = Inl e"
      "is_config_mismatch e" "operand_index e = Some (0 + k)"
    using merge_loop_first_mismatch by blast
  from k(1) have "others \<noteq> []" by auto
  with e have "merge self others = Inl e" by (simp add: merge_def)
  with e k show "\<exists>e k. merge self others = Inl e \<and> is_config_mismatch e
      \<and> operand_index e = Some k \<and> k < length others \<and> config_mismatch self (others ! k)
      \<and> (\<forall>j < k. \<not> config_mismatch self (others ! j))"
    by auto
next
  assume a: "factory_inv self \<and> (\<forall>x \<in> set others. factory_inv x \<and> \<not> config_mismatch self x)"
  let ?all = "mapped_triples self @ concat (map mapped_triples others)"
  have len: "length ?all
      = length (mapped_triples self) + sum_list (map (length \<circ> mapped_triples) others)"
    by (simp add: length_concat comp_def)
  show "\<exists>f. merge self others = Inr f \<and> mapped_triples f = ?all
      \<and> length (mapped_triples f)
          = length (mapped_triples self) + sum_list (map (length \<circ> mapped_triples) others)"
  proof (cases "others = []")
    case True
    then show ?thesis by (simp add: merge_def)
  next
    case False
    have loop: "merge_loop self 0 others [mapped_triples self]
        = Inr ([mapped_triples self] @ map mapped_triples others)"
      using a by (intro merge_loop_all_match) simp
    have "triple_in_range (num_entities self) (real_num_relations self) x"
      if "x \<in> set ?all" for x
    proof -
      from that consider "x \<in> set (mapped_triples self)"
        | y where "y \<in> set others" "x \<in> set (mapped_triples y)" by auto
      then show ?thesis
      proof cases
        case 1
        with a show ?thesis by (simp add: factory_inv_def list_all_iff)
      next
        case 2
        with a have "factory_inv y" "\<not> config_mismatch self y" by auto
        with a have "real_num_relations y = real_num_relations self"
            "num_entities y = num_entities self"
          using matching_real_num_relations by blast+
        with \<open>factory_inv y\<close> 2 show ?thesis by (simp add: factory_inv_def list_all_iff)
      qed
    qed
    then have ok: "list_all (triple_in_range (num_entities self) (real_num_relations self)) ?all"
      by (simp add: list_all_iff)
    have "merge self others
        = clone_and_exchange_triples self (as_tensor ?all) None True None"
      using False loop by (simp add: merge_def)
    moreover have "fits_int64 (num_entities self)" "fits_int64 (real_num_relations self)"
      using a by (simp_all add: factory_inv_def)
    ultimately show ?thesis using clone_as_tensor[OF ok, of None True None] len by simp
  qed
qed

theorem C3_merge_mismatch_or_sum_witness:
  "merge \<lparr>num_entities = 3, num_relations = 1, create_inverse_triples = False,
           real_num_relations = 1, mapped_triples = [(0, 0, 1)],
           metadata = (Map.empty :: string \<rightharpoonup> int)\<rparr>
     [\<lparr>num_entities = 3, num_relations = 1, create_inverse_triples = False,
       real_num_relations = 1, mapped_triples = [(0, 0, 1), (1, 0, 2)], metadata = Map.empty\<rparr>,
      \<lparr>num_entities = 3, num_relations = 2, create_inverse_triples = False,
       real_num_relations = 2, mapped_triples = [(0, 1, 1)], metadata = Map.empty\<rparr>]
     = Inl (RelationCountMismatch 1)
   \<and> (\<exists>f. merge \<lparr>num_entities = 3, num_relations = 1, create_inverse_triples = False,
           real_num_relations = 1, mapped_triples = [(0, 0, 1)],
           metadata = (Map.empty :: string \<rightharpoonup> int)\<rparr>
        [\<lparr>num_entities = 3, num_relations = 1, create_inverse_triples = False,
          real_num_relations = 1, mapped_triples = [(0, 0, 1), (1, 0, 2)],
          metadata = Map.empty\<rparr>] = Inr f
      \<and> mapped_triples f = [(0, 0, 1), (0, 0, 1), (1, 0, 2)]
      \<and> length (mapped_triples f) = 3)"
proof -
  let ?a = "\<lparr>num_entities = 3, num_relations = 1, create_inverse_triples = False,
           real_num_relations = 1, mapped_triples = [(0, 0, 1)],
           metadata = (Map.empty :: string \<rightharpoonup> int)\<rparr>"
  let ?b = "\<lparr>num_entities = 3, num_relations = 1, create_inverse_triples = False,
       real_num_relations = 1, mapped_triples = [(0, 0, 1), (1, 0, 2)],
       metadata = (Map.empty :: string \<rightharpoonup> int)\<rparr>"
  let ?c = "\<lparr>num_entities = 3, num_relations = 2, create_inverse_triples = False,
       real_num_relations = 2, mapped_triples = [(0, 1, 1)],
       metadata = (Map.empty :: string \<rightharpoonup> int)\<rparr>"
  have b: "\<not> config_mismatch ?a ?b" and c: "config_mismatch ?a ?c"
    by (simp_all add: config_mismatch_def)
  have "\<exists>i < length [?b, ?c]. config_mismatch ?a ([?b, ?c] ! i)"
    using c by (intro exI[of _ 1]) simp
  with C3_merge_mismatch_or_sum[of "[?b, ?c]" ?a]
  obtain e k where e: "merge ?a [?b, ?c] = Inl e" "operand_index e = Some k"
      "k < length [?b, ?c]" "config_mismatch ?a ([?b, ?c] ! k)"
    by blast
  have "merge ?a [?b, ?c] = Inl (RelationCountMismatch 1)"
    by (simp add: merge_def)
  moreover
  have "factory_inv ?a \<and> (\<forall>x \<in> set [?b]. factory_inv x \<and> \<not> config_mismatch ?a x)"
    using b by (simp add: factory_inv_def triple_in_range_def fits_int64_def)
  with C3_merge_mismatch_or_sum[of "[?b]" ?a]
  obtain f where "merge ?a [?b] = Inr f"
      "mapped_triples f = mapped_triples ?a @ concat (map mapped_triples [?b])"
    by blast
  then have "\<exists>f. merge ?a [?b] = Inr f
      \<and> mapped_triples f = [(0, 0, 1), (0, 0, 1), (1, 0, 2)] \<and> length (mapped_triples f) = 3"
    by simp
  ultimately show ?thesis using e by simp
qed

section \<open>Splitting a factory\<close>

lemma collect_Inr:
  "\<forall>x \<in> set xs. \<exists>y. x = Inr y \<Longrightarrow> collect xs = Inr (map projr xs)"
  by (induction xs) auto

lemma collect_length:
  "collect xs = Inr ys \<Longrightarrow> length ys = length xs \<and> (\<forall>i < length xs. xs ! i = Inr (ys ! i))"
proof (induction xs arbitrary: ys)
  case Nil
  then show ?case by simp
next
  case (Cons x xs)
  then obtain y ys' where y: "x = Inr y" "collect xs = Inr ys'" "ys = y # ys'"
    by (auto split: sum.splits)
  with Cons.IH[of ys'] show ?case by (auto simp: nth_Cons split: nat.splits)
qed

lemma split_nth:
  assumes "split self parts = Inr fs"
  shows "length fs = length parts"
    and "i < length parts \<Longrightarrow>
      clone_and_exchange_triples self (parts ! i) None True (if i = 0 then None else Some False)
        = Inr (fs ! i)"
proof -
  let ?xs = "map (\<lambda>(i, triples).
                clone_and_exchange_triples self triples None True
                  (if i = 0 then None else Some False))
              (enumerate 0 parts)"
  from assms have c: "collect ?xs = Inr fs" by (simp add: split_def)
  from collect_length[OF c] show "length fs = length parts" by simp
  assume i: "i < length parts"
  with collect_length[OF c] have "?xs ! i = Inr (fs ! i)" by simp
  with i show "clone_and_exchange_triples self (parts ! i) None True
      (if i = 0 then None else Some False) = Inr (fs ! i)"
    by (simp add: nth_enumerate_eq)
qed

text \<open>
  Claim C4. Whatever tensors the splitting routine hands back, every factory \<^verbatim>\<open>split\<close>
  returns has the flag the claim names: the first one the flag of the source, every later
  one \<open>False\<close>. And \<^verbatim>\<open>split\<close> does return, one factory per part, when the parts are
  sub-collections of the triples of a constructed source factory.
\<close>

theorem C4_split_inverse_flags:
  "(split self parts = Inr fs \<longrightarrow>
      length fs = length parts
      \<and> (\<forall>i < length fs. create_inverse_triples (fs ! i)
            = (if i = 0 then create_inverse_triples self else False)))
   \<and> (factory_inv self \<and> (\<forall>p \<in> set ps. set p \<subseteq> set (mapped_triples self)) \<longrightarrow>
      (\<exists>gs. split self (map as_tensor ps) = Inr gs \<and> map mapped_triples gs = ps))"
proof (intro conjI impI allI)
  assume s: "split self parts = Inr fs"
  show "length fs = length parts" using split_nth(1)[OF s] .
  fix i assume "i < length fs"
  then have "i < length parts" using split_nth(1)[OF s] by simp
  from clone_fields(3)[OF split_nth(2)[OF s this]]
  show "create_inverse_triples (fs ! i) = (if i = 0 then create_inverse_triples self else False)"
    by (simp split: if_splits)
next
  assume a: "factory_inv self \<and> (\<forall>p \<in> set ps. set p \<subseteq> set (mapped_triples self))"
  let ?clone = "\<lambda>(i, triples). clone_and_exchange_triples self triples None True
                  (if i = 0 then None else Some False)"
  let ?xs = "map ?clone (enumerate 0 (map as_tensor ps))"
  have ok: "list_all (triple_in_range (num_entities self) (real_num_relations self)) p"
    if "p \<in> set ps" for p
    using a that by (auto simp: factory_inv_def list_all_iff)
  have each: "\<exists>y. x = Inr y \<and> mapped_triples y = rows (elems (snd (ip)))"
    if "ip \<in> set (enumerate 0 (map as_tensor ps))" "x = ?clone ip" for x ip
  proof -
    obtain i t where ip: "ip = (i, t)" by (cases ip)
    with that(1) have "i < length ps" "t = as_tensor (ps ! i)"
      by (auto simp: in_set_enumerate_eq)
    then obtain p where p: "p \<in> set ps" "t = as_tensor p"
      using nth_mem by blast
    have "fits_int64 (num_entities self)" "fits_int64 (real_num_relations self)"
      using a by (simp_all add: factory_inv_def)
    from clone_as_tensor[OF ok[OF p(1)] this] that(2) ip p show ?thesis
      by (simp add: as_tensor_def rows_flatten)
  qed
  have all: "\<forall>x \<in> set ?xs. \<exists>y. x = Inr y"
  proof
    fix x assume "x \<in> set ?xs"
    then obtain ip where "ip \<in> set (enumerate 0 (map as_tensor ps))" "x = ?clone ip"
      by auto
    from each[OF this] show "\<exists>y. x = Inr y" by blast
  qed
  from collect_Inr[OF all] have c: "split self (map as_tensor ps) = Inr (map projr ?xs)"
    by (simp add: split_def)
  have "map mapped_triples (map projr ?xs) = ps"
  proof (rule nth_equalityI)
    show "length (map mapped_triples (map projr ?xs)) = length ps" by simp
    fix i assume "i < length (map mapped_triples (map projr ?xs))"
    then have i: "i < length ps" by simp
    then have "(i, as_tensor (ps ! i)) \<in> set (enumerate 0 (map as_tensor ps))"
      by (simp add: in_set_enumerate_eq)
    from each[OF this refl] obtain y where
      "?clone (i, as_tensor (ps ! i)) = Inr y" "mapped_triples y = ps ! i"
      by (auto simp: as_tensor_def rows_flatten)
    with i show "map mapped_triples (map projr ?xs) ! i = ps ! i"
      by (simp add: nth_enumerate_eq)
  qed
  with c show "\<exists>gs. split self (map as_tensor ps) = Inr gs \<and> map mapped_triples gs = ps"
    by blast
qed

theorem C4_split_inverse_flags_witness:
  "\<exists>gs. split \<lparr>num_entities = 3, num_relations = 2, create_inverse_triples = True,
           real_num_relations = 1, mapped_triples = [(0, 0, 1), (0, 0, 2), (1, 0, 2)],
           metadata = (Map.empty :: string \<rightharpoonup> int)\<rparr>
         (map as_tensor [[(0, 0, 1), (1, 0, 2)], [(0, 0, 2)]]) = Inr gs
     \<and> map mapped_triples gs = [[(0, 0, 1), (1, 0, 2)], [(0, 0, 2)]]
     \<and> map create_inverse_triples gs = [True, False]"
proof -
  let ?self = "\<lparr>num_entities = 3, num_relations = 2, create_inverse_triples = True,
           real_num_relations = 1, mapped_triples = [(0, 0, 1), (0, 0, 2), (1, 0, 2)],
           metadata = (Map.empty :: string \<rightharpoonup> int)\<rparr>"
  let ?ps = "[[(0, 0, 1), (1, 0, 2)], [(0, 0, 2)]] :: MappedTriples list"
  have h: "factory_inv ?self \<and> (\<forall>p \<in> set ?ps. set p \<subseteq> set (mapped_triples ?self))"
    by (simp add: factory_inv_def triple_in_range_def fits_int64_def)
  have "\<exists>gs. split ?self (map as_tensor ?ps) = Inr gs \<and> map mapped_triples gs = ?ps"
    using conjunct2[OF C4_split_inverse_flags[of ?self "[]" "[]" ?ps]] h by (rule mp)
  then obtain gs where gs: "split ?self (map as_tensor ?ps) = Inr gs"
      "map mapped_triples gs = ?ps"
    by (elim exE conjE)
  have "length gs = length (map as_tensor ?ps)
      \<and> (\<forall>i < length gs. create_inverse_triples (gs ! i)
            = (if i = 0 then create_inverse_triples ?self else False))"
    using conjunct1[OF C4_split_inverse_flags[of ?self "map as_tensor ?ps" gs ?ps]] gs(1)
    by (rule mp)
  then have l: "length gs = 2"
    and f: "\<forall>i < length gs. create_inverse_triples (gs ! i)
            = (if i = 0 then create_inverse_triples ?self else False)"
    by simp_all
  from l f have "create_inverse_triples (gs ! 0) = True" "create_inverse_triples (gs ! 1) = False"
    by simp_all
  with l have "map create_inverse_triples gs = [True, False]"
    by (cases gs; cases "tl gs"; cases "tl (tl gs)") auto
  with gs show ?thesis by - (rule exI[of _ gs], simp)
qed

section \<open>Validation at construction\<close>







section \<open>Condensing IDs\<close>

lemma fold_max_Max: "fold max vs (v::int) = Max (set (v # vs))"
  by (simp only: Max.set_eq_fold)

lemma fold_min_Min: "fold min vs (v::int) = Min (set (v # vs))"
  by (simp only: Min.set_eq_fold)

lemma get_num_ids_nonempty:
  assumes "x \<noteq> []"
  shows "get_num_ids x = Inr (Max (set x) + 1)"
proof (cases x)
  case Nil
  with assms show ?thesis by simp
next
  case (Cons v vs)
  then show ?thesis using fold_max_Max[of vs v] by simp
qed

lemma arange_props:
  "sorted (arange k)" "distinct (arange k)" "set (arange k) = {0..<k}" "length (arange k) = nat k"
proof -
  have "sorted_wrt (<) (map int [0..<nat k])"
    by (simp add: sorted_wrt_map)
  then show "sorted (arange k)" "distinct (arange k)"
    by (simp_all add: arange_def strict_sorted_iff)
  show "set (arange k) = {0..<k}"
  proof
    show "set (arange k) \<subseteq> {0..<k}" by (auto simp: arange_def)
    show "{0..<k} \<subseteq> set (arange k)"
    proof
      fix v assume "v \<in> {0..<k}"
      then have "nat v \<in> set [0..<nat k]" "int (nat v) = v" by auto
      then show "v \<in> set (arange k)" unfolding arange_def by (metis image_eqI set_map)
    qed
  qed
  show "length (arange k) = nat k" by (simp add: arange_def)
qed

lemma torch_unique_props:
  "sorted (torch_unique x)" "distinct (torch_unique x)" "set (torch_unique x) = set x"
  by (simp_all add: torch_unique_def)

lemma torch_unique_sorted_list: "torch_unique x = sorted_list_of_set (set x)"
  by (simp add: torch_unique_def sorted_list_of_set_sort_remdups)

lemma unique_eq_arange_iff: "torch_unique x = arange k \<longleftrightarrow> set x = {0..<k}"
proof
  assume "torch_unique x = arange k"
  then have "set (torch_unique x) = set (arange k)" by simp
  then show "set x = {0..<k}" by (simp only: torch_unique_props arange_props)
next
  assume "set x = {0..<k}"
  then have "set (torch_unique x) = set (arange k)"
    by (simp only: torch_unique_props arange_props)
  then show "torch_unique x = arange k"
    using torch_unique_props(1,2) arange_props(1,2) by (intro sorted_distinct_set_unique)
qed

lemma contiguous_bound:
  assumes "x \<noteq> []" "set x = {0..<k::int}"
  shows "Max (set x) + 1 = k"
proof -
  have "set x \<noteq> {}" using assms(1) by simp
  with assms(2) have k: "0 < k" by (cases "0 < k") auto
  have "Max {0..<k} = k - 1"
  proof (rule Max_eqI)
    show "finite {0..<k}" by simp
    show "\<And>y. y \<in> {0..<k} \<Longrightarrow> y \<le> k - 1" by simp
    show "k - 1 \<in> {0..<k}" using k by simp
  qed
  with assms(2) show ?thesis by simp
qed

lemma scatter_loop_length: "length (scatter_loop y ps) = length y"
  by (induction y ps rule: scatter_loop.induct) simp_all

lemma scatter_loop_other:
  "j \<notin> (\<lambda>p. nat (fst p)) ` set ps \<Longrightarrow> scatter_loop y ps ! j = y ! j"
  by (induction y ps rule: scatter_loop.induct) auto

lemma scatter_loop_hit:
  "distinct (map (\<lambda>p. nat (fst p)) ps) \<Longrightarrow> (i, s) \<in> set ps \<Longrightarrow> nat i < length y \<Longrightarrow>
   scatter_loop y ps ! nat i = s"
proof (induction y ps rule: scatter_loop.induct)
  case (1 y)
  then show ?case by simp
next
  case (2 y i' s' rest)
  show ?case
  proof (cases "(i, s) = (i', s')")
    case True
    with "2.prems"(1) have "nat i \<notin> (\<lambda>p. nat (fst p)) ` set rest" by auto
    from scatter_loop_other[OF this] True "2.prems"(3) show ?thesis by simp
  next
    case False
    with "2.prems"(2) have "(i, s) \<in> set rest" by auto
    moreover from "2.prems"(1) have "distinct (map (\<lambda>p. nat (fst p)) rest)" by simp
    ultimately have "(i, s) \<in> set rest" "distinct (map (\<lambda>p. nat (fst p)) rest)" .
    with "2.IH"[OF this(2) this(1)] "2.prems"(3) show ?thesis by simp
  qed
qed

lemma scatter_loop_values:
  "set (scatter_loop y ps) \<subseteq> set y \<union> snd ` set ps"
proof (induction y ps rule: scatter_loop.induct)
  case (1 y)
  then show ?case by simp
next
  case (2 y i s rest)
  have "set (y[nat i := s]) \<subseteq> insert s (set y)" by (rule set_update_subset_insert)
  with "2.IH" show ?case by auto
qed

lemma present_ids_fit:
  assumes "x \<noteq> []" "\<forall>v \<in> set x. 0 \<le> v"
  shows "length (torch_unique x) \<le> nat (Max (set x) + 1)"
    and "\<forall>v \<in> set (torch_unique x). 0 \<le> v \<and> v < Max (set x) + 1"
    and "0 \<le> Max (set x)"
proof -
  let ?k = "Max (set x) + 1"
  have fin: "finite (set x)" by simp
  show b: "\<forall>v \<in> set (torch_unique x). 0 \<le> v \<and> v < ?k"
    using assms(2) Max_ge[OF fin] by (fastforce simp: torch_unique_props)
  from assms obtain v where "v \<in> set x" by (cases x) auto
  with assms(2) Max_ge[OF fin, of v] have "0 \<le> v" "v \<le> Max (set x)" by blast+
  then show "0 \<le> Max (set x)" by linarith
  have "set (torch_unique x) \<subseteq> {0..<?k}" using b by auto
  then have "card (set (torch_unique x)) \<le> card {0..<?k}" by (intro card_mono) simp_all
  then show "length (torch_unique x) \<le> nat ?k"
    by (simp add: distinct_card[OF torch_unique_props(2)])
qed

lemma make_scatter_ok:
  assumes "x \<noteq> []" "\<forall>v \<in> set x. 0 \<le> v"
  shows "scatter (replicate (nat (Max (set x) + 1)) (- 1)) (torch_unique x) (arange (Max (set x) + 1))
    = Inr (scatter_loop (replicate (nat (Max (set x) + 1)) (- 1))
             (zip (torch_unique x) (arange (Max (set x) + 1))))"
proof -
  let ?k = "Max (set x) + 1"
  note fit = present_ids_fit[OF assms]
  have "\<not> length (arange ?k) < length (torch_unique x)"
    using fit(1) by (simp add: arange_props)
  moreover have "\<not> list_ex (\<lambda>i. i < 0 \<or> int (length (replicate (nat ?k) (- 1 :: int))) \<le> i)
      (torch_unique x)"
    using fit(2,3) by (auto simp: list_ex_iff)
  ultimately show ?thesis by (simp add: scatter_def)
qed

lemma scattered_accepted:
  assumes "x \<noteq> []" "\<forall>v \<in> set x. 0 \<le> v"
  defines "ys \<equiv> scatter_loop (replicate (nat (Max (set x) + 1)) (- 1))
             (zip (torch_unique x) (arange (Max (set x) + 1)))"
  shows "Condenser_init (Some ys) = Inr \<lparr>condensation = Some ys\<rparr>"
    and "int (length ys) = Max (set x) + 1"
proof -
  let ?k = "Max (set x) + 1"
  note fit = present_ids_fit[OF assms(1,2)]
  show len: "int (length ys) = ?k"
    using fit(3) by (simp add: ys_def scatter_loop_length)
  have vals: "- 1 \<le> e \<and> e < ?k" if "e \<in> set ys" for e
  proof -
    from that scatter_loop_values
    have "e \<in> set (replicate (nat ?k) (- 1)) \<union> snd ` set (zip (torch_unique x) (arange ?k))"
      unfolding ys_def by blast
    then consider "e = - 1" | "e \<in> set (arange ?k)"
      by (auto dest: set_zip_rightD)
    then show ?thesis
    proof cases
      case 1
      with fit(3) show ?thesis by simp
    next
      case 2
      then show ?thesis by (simp add: arange_props)
    qed
  qed
  from len fit(3) obtain v vs where ys: "ys = v # vs" by (cases ys) auto
  have "finite (set ys)" "set ys \<noteq> {}" using ys by simp_all
  then have "- 1 \<le> Min (set ys)" "Max (set ys) < ?k"
    using vals by (simp_all add: Min_ge_iff Max_less_iff)
  then have "\<not> (fold min vs v < - 1 \<or> int (length (v # vs)) \<le> fold max vs v)"
    using len unfolding ys fold_min_Min fold_max_Max by linarith
  then show "Condenser_init (Some ys) = Inr \<lparr>condensation = Some ys\<rparr>"
    by (simp add: Condenser_init_def ys)
qed

lemma scattered_present:
  assumes "x \<noteq> []" "\<forall>v \<in> set x. 0 \<le> v" "i < length (torch_unique x)"
  shows "scatter_loop (replicate (nat (Max (set x) + 1)) (- 1))
             (zip (torch_unique x) (arange (Max (set x) + 1))) ! nat (torch_unique x ! i) = int i"
proof -
  let ?k = "Max (set x) + 1"
  let ?us = "torch_unique x"
  let ?ps = "zip ?us (arange ?k)"
  note fit = present_ids_fit[OF assms(1,2)]
  have i: "i < length ?ps" "i < nat ?k" using assms(3) fit(1) by (simp_all add: arange_props)
  then have "?ps ! i = (?us ! i, int i)" by (simp add: arange_def)
  with i(1) have mem: "(?us ! i, int i) \<in> set ?ps" by (metis nth_mem)
  have "map fst ?ps = ?us" using fit(1) by (simp add: map_fst_zip_take arange_props)
  then have "map (\<lambda>p. nat (fst p)) ?ps = map nat ?us"
    by (metis (no_types, lifting) map_map comp_def map_eq_conv)
  moreover have "inj_on nat (set ?us)"
  proof (rule inj_onI)
    fix a b assume "a \<in> set ?us" "b \<in> set ?us" "nat a = nat b"
    with fit(2) show "a = b" by (simp add: eq_nat_nat_iff)
  qed
  ultimately have d: "distinct (map (\<lambda>p. nat (fst p)) ?ps)"
    by (simp add: distinct_map torch_unique_props)
  have "?us ! i \<in> set ?us" using assms(3) by simp
  with fit(2,3) have "nat (?us ! i) < length (replicate (nat ?k) (- 1 :: int))" by auto
  from scatter_loop_hit[OF d mem this] show ?thesis .
qed

lemma scattered_absent:
  assumes "\<forall>v \<in> set x. 0 \<le> v" "int j \<notin> set x" "j < nat k"
  shows "scatter_loop (replicate (nat k) (- 1)) (zip (torch_unique x) (arange k)) ! j = - 1"
proof -
  have "j \<notin> (\<lambda>p. nat (fst p)) ` set (zip (torch_unique x) (arange k))"
  proof
    assume "j \<in> (\<lambda>p. nat (fst p)) ` set (zip (torch_unique x) (arange k))"
    then obtain p where p: "p \<in> set (zip (torch_unique x) (arange k))" "j = nat (fst p)"
      by blast
    then have "fst p \<in> set x"
      by (metis prod.collapse set_zip_leftD torch_unique_props(3))
    with assms(1) p(2) have "int j \<in> set x" by auto
    with assms(2) show False by contradiction
  qed
  from scatter_loop_other[OF this] assms(3) show ?thesis by simp
qed

text \<open>
  Claim C6. For a nonempty tensor of IDs (entries \<open>\<ge> 0\<close>): when the present values are
  exactly \<open>0..k-1\<close>, \<^verbatim>\<open>Condenser.make\<close> returns the identity condenser, whose boolean
  value is false and whose application returns its input; otherwise it returns a
  condenser whose condensation has one entry per ID up to the largest present one, sends
  the \<open>i\<close>-th smallest present ID to \<open>i\<close> and every absent ID to \<open>-1\<close>.
\<close>

theorem C6_condenser_make:
  assumes "x \<noteq> []" "\<forall>v \<in> set x. 0 \<le> v"
  shows "((\<exists>k. set x = {0..<k}) \<longrightarrow>
           (\<exists>c. Condenser_make x True = Inr c \<and> \<not> Condenser_bool c
              \<and> (\<forall>y. Condenser_call c y = Inr y)))
       \<and> (\<not> (\<exists>k. set x = {0..<k}) \<longrightarrow>
           (\<exists>c ys. Condenser_make x True = Inr c \<and> Condenser_bool c
              \<and> condensation c = Some ys
              \<and> int (length ys) = Max (set x) + 1
              \<and> (\<forall>i < length (sorted_list_of_set (set x)).
                    ys ! nat (sorted_list_of_set (set x) ! i) = int i)
              \<and> (\<forall>j < length ys. int j \<notin> set x \<longrightarrow> ys ! j = - 1)))"
proof (intro conjI impI)
  let ?k = "Max (set x) + 1"
  note fit = present_ids_fit[OF assms]
  have num: "get_num_ids x = Inr ?k" by (rule get_num_ids_nonempty[OF assms(1)])
  have k: "\<not> ?k < 0" using fit(3) by simp
  {
    assume "\<exists>k. set x = {0..<k}"
    then obtain k' where k': "set x = {0..<k'}" ..
    with contiguous_bound[OF assms(1)] have "set x = {0..<?k}" by simp
    then have "torch_unique x = arange ?k" by (simp only: unique_eq_arange_iff)
    with num k assms(1) have "Condenser_make x True = Inr \<lparr>condensation = None\<rparr>"
      by (simp add: Condenser_make_def Condenser_init_def)
    moreover have "\<not> Condenser_bool \<lparr>condensation = None\<rparr>"
      by (simp add: Condenser_bool_def)
    moreover have "\<forall>y. Condenser_call \<lparr>condensation = None\<rparr> y = Inr y"
      by (simp add: Condenser_call_def)
    ultimately show "\<exists>c. Condenser_make x True = Inr c \<and> \<not> Condenser_bool c
        \<and> (\<forall>y. Condenser_call c y = Inr y)"
      by blast
  }
  {
    assume "\<not> (\<exists>k. set x = {0..<k})"
    then have "torch_unique x \<noteq> arange ?k" by (simp only: unique_eq_arange_iff) blast
    let ?ys = "scatter_loop (replicate (nat ?k) (- 1)) (zip (torch_unique x) (arange ?k))"
    let ?c = "\<lparr>condensation = Some ?ys\<rparr>"
    have mk: "Condenser_make x True = Inr ?c"
      using num k assms(1) \<open>torch_unique x \<noteq> arange ?k\<close>
        make_scatter_ok[OF assms] scattered_accepted(1)[OF assms]
      by (simp add: Condenser_make_def)
    have len: "int (length ?ys) = ?k" by (rule scattered_accepted(2)[OF assms])
    have pres: "\<forall>i < length (sorted_list_of_set (set x)).
        ?ys ! nat (sorted_list_of_set (set x) ! i) = int i"
      using scattered_present[OF assms] by (simp add: torch_unique_sorted_list)
    have abs: "\<forall>j < length ?ys. int j \<notin> set x \<longrightarrow> ?ys ! j = - 1"
    proof (intro allI impI)
      fix j assume "j < length ?ys" "int j \<notin> set x"
      with len have "j < nat ?k" by linarith
      from scattered_absent[OF assms(2) \<open>int j \<notin> set x\<close> this] show "?ys ! j = - 1" .
    qed
    have "Condenser_bool ?c \<and> condensation ?c = Some ?ys"
      by (simp add: Condenser_bool_def)
    with mk len pres abs
    show "\<exists>c ys. Condenser_make x True = Inr c \<and> Condenser_bool c
        \<and> condensation c = Some ys \<and> int (length ys) = Max (set x) + 1
        \<and> (\<forall>i < length (sorted_list_of_set (set x)).
              ys ! nat (sorted_list_of_set (set x) ! i) = int i)
        \<and> (\<forall>j < length ys. int j \<notin> set x \<longrightarrow> ys ! j = - 1)"
      by blast
  }
qed

theorem C6_condenser_make_witness:
  "(\<exists>c. Condenser_make [0, 2, 1, 0] True = Inr c \<and> \<not> Condenser_bool c
      \<and> Condenser_call c [2, 0] = Inr [2, 0])
   \<and> (\<exists>c ys. Condenser_make [5, 3, 0, 3] True = Inr c \<and> Condenser_bool c
      \<and> condensation c = Some ys \<and> length ys = 6
      \<and> ys ! 0 = 0 \<and> ys ! 3 = 1 \<and> ys ! 5 = 2 \<and> ys ! 1 = - 1 \<and> ys ! 2 = - 1 \<and> ys ! 4 = - 1)"
proof -
  have a: "[0, 2, 1, 0] \<noteq> ([] :: int list)" "\<forall>v \<in> set [0, 2, 1, 0 :: int]. 0 \<le> v"
    by simp_all
  have "set [0, 2, 1, 0 :: int] = {0..<3}" by auto
  then have "\<exists>k. set [0, 2, 1, 0 :: int] = {0..<k}" ..
  with conjunct1[OF C6_condenser_make[OF a]]
  have one: "\<exists>c. Condenser_make [0, 2, 1, 0] True = Inr c \<and> \<not> Condenser_bool c
      \<and> (\<forall>y. Condenser_call c y = Inr y)"
    by (rule mp)
  have two: "Condenser_make [5, 3, 0, 3] True
      = Inr \<lparr>condensation = Some [0, - 1, - 1, 1, - 1, 2]\<rparr>"
    by code_simp
  from one two show ?thesis by (auto simp: Condenser_bool_def)
qed

section \<open>Batches of positive-triple indices\<close>








section \<open>The compressed target matrix of LCWA\<close>

lemma index_of_mem:
  "y \<in> set xs \<Longrightarrow> index_of xs y < length xs \<and> xs ! index_of xs y = y"
  by (induction xs) auto

lemma index_of_nth:
  "distinct xs \<Longrightarrow> i < length xs \<Longrightarrow> index_of xs (xs ! i) = i"
proof (induction xs arbitrary: i)
  case Nil
  then show ?case by simp
next
  case (Cons x xs)
  then show ?case by (cases i) auto
qed

lemma index_of_eq_iff:
  assumes "distinct xs" "y \<in> set xs" "i < length xs"
  shows "index_of xs y = i \<longleftrightarrow> y = xs ! i"
  using assms index_of_mem index_of_nth by metis

lemma count_list_map_filter:
  "count_list (map f ts) y = length (filter (\<lambda>x. f x = y) ts)"
  by (induction ts) auto

lemma distinct_filter_eq_length:
  "distinct ts \<Longrightarrow> length (filter (\<lambda>x. x = y) ts) = (if y \<in> set ts then 1 else 0)"
  by (induction ts) (auto simp: filter_empty_conv)

lemma unique_pairs_alt:
  "sort (remdups (map f ts)) = sorted_list_of_set (f ` set ts)"
  by (simp add: sorted_list_of_set_sort_remdups flip: set_map)

text \<open>
  Claim C5. For deduplicated triples whose tail IDs lie below \<^verbatim>\<open>num_entities\<close>,
  \<^verbatim>\<open>LCWAInstances.from_triples\<close> with target tail gives as pairs the distinct
  (head, relation) combinations in lexicographic order and a matrix of shape
  \<open>(len(pairs), num_entities)\<close> whose row \<open>i\<close> has a \<open>1\<close> exactly at the tails that occur
  with pair \<open>i\<close> in the triples, and \<open>0\<close> elsewhere.
\<close>

theorem C5_lcwa_from_triples_tail:
  assumes "distinct mt" "0 \<le> ne" "\<forall>(h, r, t) \<in> set mt. 0 \<le> t \<and> t < ne"
  shows "\<exists>inst. from_triples mt ne nr (Some COLUMN_TAIL) = Inr inst
     \<and> pairs inst = sorted_list_of_set ((\<lambda>(h, r, t). (h, r)) ` set mt)
     \<and> sparse_shape (compressed inst) = (length (pairs inst), nat ne)
     \<and> (\<forall>i < length (pairs inst).
          length (dense_row (compressed inst) i) = nat ne
          \<and> (\<forall>j < nat ne. dense_row (compressed inst) i ! j
                = (if (fst (pairs inst ! i), snd (pairs inst ! i), int j) \<in> set mt
                   then 1 else 0)))"
proof -
  let ?pr = "other_entries COLUMN_TAIL"
  let ?tl = "target_entry COLUMN_TAIL"
  let ?u = "sort (remdups (map ?pr mt))"
  let ?cs = "zip (map (index_of ?u) (map ?pr mt)) (map ?tl mt)"
  let ?c = "\<lparr>sparse_shape = (length ?u, nat ne), coords = ?cs\<rparr>"
  let ?inst = "\<lparr>pairs = ?u, compressed = ?c, lcwa_target = COLUMN_TAIL\<rparr>"
  have pr: "?pr = (\<lambda>(h, r, t). (h, r))" by (auto simp: fun_eq_iff)
  have u: "distinct ?u" "set ?u = ?pr ` set mt" by simp_all
  have cs: "?cs = map (\<lambda>x. (index_of ?u (?pr x), ?tl x)) mt"
    by (simp add: zip_map_map zip_same_conv_map)
  have inb: "i < length ?u \<and> 0 \<le> j \<and> j < ne" if "(i, j) \<in> set ?cs" for i j
  proof -
    from that obtain x where x: "x \<in> set mt" "i = index_of ?u (?pr x)" "j = ?tl x"
      unfolding cs by auto
    obtain h r t where "x = (h, r, t)" by (cases x) auto
    with x(1,3) assms(3) have "0 \<le> j \<and> j < ne" by auto
    moreover have "?pr x \<in> set ?u" using x(1) u(2) by blast
    ultimately show ?thesis using index_of_mem x(2) by metis
  qed
  then have "\<not> list_ex (\<lambda>(i, j). fst (length ?u, ne) \<le> i \<or> j < 0 \<or> snd (length ?u, ne) \<le> j) ?cs"
    by (fastforce simp: list_ex_iff)
  with assms(2) have coo: "coo_matrix ?cs (length ?u, ne) = Inr ?c"
    by (simp add: coo_matrix_def)
  have run: "from_triples mt ne nr (Some COLUMN_TAIL) = Inr ?inst"
    unfolding from_triples_def get_target_column_def np_unique_inverse_def Let_def
    using coo by simp
  have ent: "entry ?c i j = (if (fst (?u ! i), snd (?u ! i), int j) \<in> set mt then 1 else 0)"
    if i: "i < length ?u" for i j
  proof -
    have "((index_of ?u (?pr x), ?tl x) = (i, int j)) = (x = (fst (?u ! i), snd (?u ! i), int j))"
      if x: "x \<in> set mt" for x
    proof -
      obtain h r t where hrt: "x = (h, r, t)" by (cases x) auto
      have "?pr x \<in> set ?u" using x u(2) by blast
      then have "(h, r) \<in> set ?u" by (simp add: hrt)
      from index_of_eq_iff[OF u(1) this i]
      have "index_of ?u (h, r) = i \<longleftrightarrow> (h, r) = ?u ! i" .
      then show ?thesis unfolding hrt by (cases "?u ! i") auto
    qed
    then have "filter (\<lambda>x. (index_of ?u (?pr x), ?tl x) = (i, int j)) mt
        = filter (\<lambda>x. x = (fst (?u ! i), snd (?u ! i), int j)) mt"
      by (intro filter_cong) auto
    moreover have "entry ?c i j
        = length (filter (\<lambda>x. (index_of ?u (?pr x), ?tl x) = (i, int j)) mt)"
      unfolding entry_def using cs by (simp add: count_list_map_filter)
    ultimately show ?thesis
      by (simp only: distinct_filter_eq_length[OF assms(1)])
  qed
  have rows: "\<forall>i < length ?u. length (dense_row ?c i) = nat ne
      \<and> (\<forall>j < nat ne. dense_row ?c i ! j
            = (if (fst (?u ! i), snd (?u ! i), int j) \<in> set mt then 1 else 0))"
    using ent by (simp add: dense_row_def)
  have sel: "pairs ?inst = ?u" "compressed ?inst = ?c" by simp_all
  have p: "?u = sorted_list_of_set ((\<lambda>(h, r, t). (h, r)) ` set mt)"
    using unique_pairs_alt[of ?pr mt] by (simp only: pr)
  show ?thesis
  proof (intro exI[of _ ?inst] conjI)
    show "from_triples mt ne nr (Some COLUMN_TAIL) = Inr ?inst" by (rule run)
    show "pairs ?inst = sorted_list_of_set ((\<lambda>(h, r, t). (h, r)) ` set mt)"
      unfolding sel by (rule p)
    show "sparse_shape (compressed ?inst) = (length (pairs ?inst), nat ne)"
      unfolding sel by simp
    show "\<forall>i < length (pairs ?inst).
          length (dense_row (compressed ?inst) i) = nat ne
          \<and> (\<forall>j < nat ne. dense_row (compressed ?inst) i ! j
                = (if (fst (pairs ?inst ! i), snd (pairs ?inst ! i), int j) \<in> set mt
                   then 1 else 0))"
      unfolding sel by (rule rows)
  qed
qed

theorem C5_lcwa_from_triples_tail_witness:
  "\<exists>inst. from_triples [(0, 0, 1), (0, 0, 2), (1, 0, 2)] 3 1 (Some COLUMN_TAIL) = Inr inst
     \<and> pairs inst = [(0, 0), (1, 0)]
     \<and> length (pairs inst) = 2
     \<and> sparse_shape (compressed inst) = (2, 3)
     \<and> dense_row (compressed inst) 0 = [0, 1, 1]
     \<and> dense_row (compressed inst) 1 = [0, 0, 1]"
proof -
  let ?mt = "[(0, 0, 1), (0, 0, 2), (1, 0, 2)] :: MappedTriples"
  have h: "distinct ?mt" "(0::int) \<le> 3" "\<forall>(h, r, t) \<in> set ?mt. 0 \<le> t \<and> t < 3"
    by simp_all
  let ?I = "\<lparr>pairs = [(0, 0), (1, 0)],
             compressed = \<lparr>sparse_shape = (2, 3), coords = [(0, 1), (0, 2), (1, 2)]\<rparr>,
             lcwa_target = COLUMN_TAIL\<rparr>"
  from C5_lcwa_from_triples_tail[OF h, of 1]
  have "\<exists>inst. from_triples ?mt 3 1 (Some COLUMN_TAIL) = Inr inst" by blast
  moreover have "from_triples ?mt 3 1 (Some COLUMN_TAIL)
      = Inr \<lparr>pairs = [(0, 0), (1, 0)],
             compressed = \<lparr>sparse_shape = (2, 3), coords = [(0, 1), (0, 2), (1, 2)]\<rparr>,
             lcwa_target = COLUMN_TAIL\<rparr>"
    by code_simp
  moreover have "dense_row \<lparr>sparse_shape = (2, 3), coords = [(0, 1), (0, 2), (1, 2)]\<rparr> 0 = [0, 1, 1]"
    "dense_row \<lparr>sparse_shape = (2, 3), coords = [(0, 1), (0, 2), (1, 2)]\<rparr> 1 = [0, 0, 1]"
    by code_simp+
  ultimately show ?thesis by - (rule exI[of _ ?I], simp)
qed

section \<open>The rejection loop of subgraph sampling\<close>

lemma retry_loop_never:
  assumes run: "retry_loop ep adj draws n e = Some y"
    and inv: "\<forall>p \<in> set adj. fst p < length ep" "\<forall>k. draws k < length adj"
      "e \<in> set adj" "ep ! fst e" "\<forall>k \<ge> n. ep ! fst (adj ! draws k)"
  shows False
proof -
  define I :: "bool list \<Rightarrow> (nat \<times> nat) list \<Rightarrow> (nat \<Rightarrow> nat) \<Rightarrow> nat \<Rightarrow> nat \<times> nat \<Rightarrow> bool"
    where "I = (\<lambda>ep adj draws n e. (\<forall>p \<in> set adj. fst p < length ep)
      \<and> (\<forall>k. draws k < length adj) \<and> e \<in> set adj \<and> ep ! fst e
      \<and> (\<forall>k \<ge> n. ep ! fst (adj ! draws k)))"
  have "I ep adj draws n e \<longrightarrow> False"
  proof (rule retry_loop.raw_induct[where P = "\<lambda>ep adj draws n e y. I ep adj draws n e \<longrightarrow> False",
        OF _ run])
    fix retry :: "bool list \<Rightarrow> (nat \<times> nat) list \<Rightarrow> (nat \<Rightarrow> nat) \<Rightarrow> nat \<Rightarrow> nat \<times> nat
        \<Rightarrow> (error + nat \<times> nat) option"
      and ep adj draws n e y
    assume IH: "\<And>ep adj draws n e y. retry ep adj draws n e = Some y \<Longrightarrow> I ep adj draws n e \<longrightarrow> False"
      and body: "(if length ep \<le> fst e then Some (Inl IndexOutOfRange)
          else if ep ! fst e
            then (if length adj \<le> draws n then Some (Inl IndexOutOfRange)
                  else retry ep adj draws (Suc n) (adj ! draws n))
          else Some (Inr e)) = Some y"
    show "I ep adj draws n e \<longrightarrow> False"
    proof
      assume i: "I ep adj draws n e"
      then have a: "\<not> length ep \<le> fst e" "ep ! fst e" "\<not> length adj \<le> draws n"
        by (auto simp: I_def not_le)
      with body have rec: "retry ep adj draws (Suc n) (adj ! draws n) = Some y"
        by (simp only: if_False if_True)
      have "I ep adj draws (Suc n) (adj ! draws n)"
        using i a(3) unfolding I_def by (simp add: not_le)
      with IH[OF rec] show False by blast
    qed
  qed
  moreover have "I ep adj draws n e" using inv by (simp add: I_def)
  ultimately show False by blast
qed

lemma retry_loop_step:
  assumes "\<forall>p \<in> set adj. fst p < length ep" "\<forall>k. draws k < length adj"
  shows "retry_loop ep adj draws (Suc n) (adj ! draws n)
    = (if ep ! fst (adj ! draws n) then retry_loop ep adj draws (Suc (Suc n)) (adj ! draws (Suc n))
       else Some (Inr (adj ! draws n)))"
proof -
  have "adj ! draws n \<in> set adj" using assms(2) by simp
  with assms(1) have "\<not> length ep \<le> fst (adj ! draws n)" by (simp add: not_le)
  moreover have "\<not> length adj \<le> draws (Suc n)" using assms(2) by (simp add: not_le)
  ultimately show ?thesis
    by (subst retry_loop.simps) (simp only: if_False)
qed

lemma retry_loop_skip:
  assumes "\<forall>p \<in> set adj. fst p < length ep" "\<forall>k. draws k < length adj"
    and "\<forall>k < m. ep ! fst (adj ! draws k)"
  shows "retry_loop ep adj draws (Suc 0) (adj ! draws 0)
    = retry_loop ep adj draws (Suc m) (adj ! draws m)"
  using assms(3)
proof (induction m)
  case 0
  show ?case by simp
next
  case (Suc m)
  then have "retry_loop ep adj draws (Suc 0) (adj ! draws 0)
      = retry_loop ep adj draws (Suc m) (adj ! draws m)" by simp
  also have "\<dots> = retry_loop ep adj draws (Suc (Suc m)) (adj ! draws (Suc m))"
  proof -
    from Suc.prems have "ep ! fst (adj ! draws m)" by simp
    then show ?thesis by (simp only: retry_loop_step[OF assms(1,2), of m] if_True)
  qed
  finally show ?case .
qed

lemma retry_loop_first_hit:
  assumes "\<forall>p \<in> set adj. fst p < length ep" "\<forall>k. draws k < length adj"
    and "\<forall>k < m. ep ! fst (adj ! draws k)" "\<not> ep ! fst (adj ! draws m)"
  shows "retry_loop ep adj draws (Suc 0) (adj ! draws 0) = Some (Inr (adj ! draws m))"
proof -
  have "retry_loop ep adj draws (Suc 0) (adj ! draws 0)
      = retry_loop ep adj draws (Suc m) (adj ! draws m)"
    by (rule retry_loop_skip[OF assms(1,2,3)])
  also have "\<dots> = Some (Inr (adj ! draws m))"
    using assms(4) by (simp only: retry_loop_step[OF assms(1,2), of m] if_False)
  finally show ?thesis .
qed

lemma retry_loop_forever:
  assumes "\<forall>p \<in> set adj. fst p < length ep" "\<forall>k. draws k < length adj"
    and "\<forall>k. ep ! fst (adj ! draws k)"
  shows "retry_loop ep adj draws (Suc 0) (adj ! draws 0) = None"
proof (rule ccontr)
  assume "retry_loop ep adj draws (Suc 0) (adj ! draws 0) \<noteq> None"
  then obtain y where "retry_loop ep adj draws (Suc 0) (adj ! draws 0) = Some y" by auto
  then show False
  proof (rule retry_loop_never[OF _ assms(1,2)])
    show "adj ! draws 0 \<in> set adj" using assms(2) by simp
    show "ep ! fst (adj ! draws 0)" using assms(3) by simp
    show "\<forall>k \<ge> Suc 0. ep ! fst (adj ! draws k)" using assms(3) by simp
  qed
qed

lemma retry_loop_cases:
  assumes "\<forall>p \<in> set adj. fst p < length ep" "\<forall>k. draws k < length adj"
  shows "retry_loop ep adj draws (Suc 0) (adj ! draws 0)
    = (if \<exists>m. \<not> ep ! fst (adj ! draws m)
       then Some (Inr (adj ! draws (LEAST m. \<not> ep ! fst (adj ! draws m))))
       else None)"
proof (cases "\<exists>m. \<not> ep ! fst (adj ! draws m)")
  case True
  let ?m = "LEAST m. \<not> ep ! fst (adj ! draws m)"
  from True have "\<not> ep ! fst (adj ! draws ?m)" by (rule LeastI_ex)
  moreover have "\<forall>k < ?m. ep ! fst (adj ! draws k)"
    using not_less_Least by blast
  ultimately have "retry_loop ep adj draws (Suc 0) (adj ! draws 0) = Some (Inr (adj ! draws ?m))"
    by (intro retry_loop_first_hit[OF assms])
  with True show ?thesis by (simp only: if_True)
next
  case False
  then have "\<forall>k. ep ! fst (adj ! draws k)" by simp
  then have "retry_loop ep adj draws (Suc 0) (adj ! draws 0) = None"
    by (rule retry_loop_forever[OF assms])
  with False show ?thesis by (simp only: if_False)
qed

lemma card_retrying_draws:
  "card (retrying_draws ep adj n)
     = (length adj - length (unpicked_positions ep adj)) ^ n"
proof -
  let ?M = "{i. i < length adj \<and> ep ! fst (adj ! i)}"
  have fin: "finite ?M" by simp
  have "retrying_draws ep adj n = {ds. set ds \<subseteq> ?M \<and> length ds = n}"
    by (auto simp: retrying_draws_def)
  then have "card (retrying_draws ep adj n) = card ?M ^ n"
    by (simp only: card_lists_length_eq[OF fin])
  moreover have "card ?M = length adj - length (unpicked_positions ep adj)"
  proof -
    have "?M = set (filter (\<lambda>i. ep ! fst (adj ! i)) [0..<length adj])" by auto
    then have "card ?M = length (filter (\<lambda>i. ep ! fst (adj ! i)) [0..<length adj])"
      by (simp only: distinct_card[OF distinct_filter[OF distinct_upt]])
    moreover have "length (filter (\<lambda>i. ep ! fst (adj ! i)) [0..<length adj])
        + length (unpicked_positions ep adj) = length adj"
      unfolding unpicked_positions_def
      using sum_length_filter_compl[of "\<lambda>i. ep ! fst (adj ! i)" "[0..<length adj]"] by simp
    ultimately show ?thesis by simp
  qed
  ultimately show ?thesis by simp
qed

lemma unpicked_positions_empty_iff:
  "unpicked_positions ep adj = [] \<longleftrightarrow> (\<forall>p \<in> set adj. ep ! fst p)"
proof -
  have "(\<forall>i \<in> set [0..<length adj]. ep ! fst (adj ! i)) \<longleftrightarrow> (\<forall>p \<in> set adj. ep ! fst p)"
    by (auto simp: all_set_conv_all_nth)
  then show ?thesis by (simp only: unpicked_positions_def filter_empty_conv not_not)
qed

lemma unpicked_positions_length: "length (unpicked_positions ep adj) \<le> length adj"
  unfolding unpicked_positions_def
  using length_filter_le[of _ "[0..<length adj]"] by simp

lemma share_tends_to_zero_iff:
  fixes d u :: nat
  assumes "0 < d" "u \<le> d"
  shows "((\<lambda>n. real ((d - u) ^ n) / real (d ^ n)) \<longlonglongrightarrow> 0) \<longleftrightarrow> 0 < u"
proof
  assume lim: "(\<lambda>n. real ((d - u) ^ n) / real (d ^ n)) \<longlonglongrightarrow> 0"
  show "0 < u"
  proof (rule ccontr)
    assume "\<not> 0 < u"
    then have "(\<lambda>n. real ((d - u) ^ n) / real (d ^ n)) = (\<lambda>n. 1)"
      using assms(1) by (simp add: fun_eq_iff)
    with lim have "(\<lambda>n::nat. 1::real) \<longlonglongrightarrow> 0" by simp
    then show False by (simp add: LIMSEQ_const_iff)
  qed
next
  assume u: "0 < u"
  let ?x = "real (d - u) / real d"
  have "0 \<le> ?x" "?x < 1" using assms u by simp_all
  then have "(\<lambda>n. ?x ^ n) \<longlonglongrightarrow> 0" by (rule LIMSEQ_realpow_zero)
  then show "(\<lambda>n. real ((d - u) ^ n) / real (d ^ n)) \<longlonglongrightarrow> 0"
    by (simp add: power_divide)
qed

lemma select_edge_positive_degree:
  assumes "length (adj_list_of self v) = degrees self ! v" "0 < degrees self ! v"
    and "\<forall>n. draws n < degrees self ! v"
  shows "select_edge self ep v draws
    = retry_loop ep (adj_list_of self v) draws (Suc 0) (adj_list_of self v ! draws 0)"
proof -
  have "\<not> length (adj_list_of self v) \<le> draws 0" using assms(1,3) by (simp add: not_le)
  with assms(2) show ?thesis by (simp add: select_edge_def Let_def)
qed

text \<open>
  Claim C9, as amended. The edge selection draws uniformly from the adjacency list of the
  chosen vertex until it draws an edge that is not yet picked. For a vertex with at least
  one incident edge: when every incident edge is already picked the loop never returns,
  whatever is drawn; the step returns an edge exactly when some draw hits an unpicked edge,
  and then it is the first such draw. Of the \<open>d ^ n\<close> equally likely sequences of \<open>n\<close> draws,
  \<open>(d - u) ^ n\<close> leave the loop retrying (\<open>u\<close> the number of unpicked positions), a share
  that tends to \<open>0\<close> exactly when there is an unpicked incident edge: termination with
  probability one. For a vertex without incident edges the step raises before the loop
  is entered.
\<close>

theorem C9_edge_selection:
  assumes "length (adj_list_of self v) = degrees self ! v"
    and "\<forall>p \<in> set (adj_list_of self v). fst p < length ep"
  shows "(degrees self ! v = 0 \<longrightarrow> select_edge self ep v draws = Some (Inl EmptyRange))
    \<and> (0 < degrees self ! v \<and> (\<forall>n. draws n < degrees self ! v) \<longrightarrow>
          ((\<forall>p \<in> set (adj_list_of self v). ep ! fst p) \<longrightarrow> select_edge self ep v draws = None)
        \<and> (select_edge self ep v draws = None
              \<longleftrightarrow> (\<forall>n. ep ! fst (adj_list_of self v ! draws n)))
        \<and> ((\<exists>e. select_edge self ep v draws = Some (Inr e))
              \<longleftrightarrow> (\<exists>n. \<not> ep ! fst (adj_list_of self v ! draws n)))
        \<and> (\<forall>m. \<not> ep ! fst (adj_list_of self v ! draws m)
                \<and> (\<forall>k < m. ep ! fst (adj_list_of self v ! draws k))
              \<longrightarrow> select_edge self ep v draws = Some (Inr (adj_list_of self v ! draws m))))
    \<and> (\<forall>n. card (retrying_draws ep (adj_list_of self v) n)
          = (degrees self ! v - length (unpicked_positions ep (adj_list_of self v))) ^ n)
    \<and> (0 < degrees self ! v \<longrightarrow>
          (((\<lambda>n. real (card (retrying_draws ep (adj_list_of self v) n))
                  / real (degrees self ! v ^ n)) \<longlonglongrightarrow> 0)
           \<longleftrightarrow> (\<exists>p \<in> set (adj_list_of self v). \<not> ep ! fst p)))"
proof (intro conjI impI allI)
  let ?adj = "adj_list_of self v"
  let ?d = "degrees self ! v"
  let ?u = "length (unpicked_positions ep ?adj)"
  show "select_edge self ep v draws = Some (Inl EmptyRange)" if "?d = 0"
    using that by (simp add: select_edge_def Let_def)
  show card: "card (retrying_draws ep ?adj n) = (?d - ?u) ^ n" for n
    using card_retrying_draws[of ep ?adj n] assms(1) by simp
  show "((\<lambda>n. real (card (retrying_draws ep ?adj n)) / real (?d ^ n)) \<longlonglongrightarrow> 0)
      \<longleftrightarrow> (\<exists>p \<in> set ?adj. \<not> ep ! fst p)" if "0 < ?d"
  proof -
    have "?u \<le> ?d" using unpicked_positions_length[of ep ?adj] assms(1) by simp
    from share_tends_to_zero_iff[OF that this]
    have "((\<lambda>n. real ((?d - ?u) ^ n) / real (?d ^ n)) \<longlonglongrightarrow> 0) \<longleftrightarrow> 0 < ?u" .
    moreover have "0 < ?u \<longleftrightarrow> (\<exists>p \<in> set ?adj. \<not> ep ! fst p)"
      using unpicked_positions_empty_iff[of ep ?adj] by auto
    ultimately show ?thesis by (simp only: card)
  qed
  {
    assume a: "0 < ?d \<and> (\<forall>n. draws n < ?d)"
    then have r: "\<forall>k. draws k < length ?adj" using assms(1) by simp
    have sel: "select_edge self ep v draws = retry_loop ep ?adj draws (Suc 0) (?adj ! draws 0)"
      using select_edge_positive_degree[OF assms(1)] a by blast
    note cases = retry_loop_cases[OF assms(2) r, folded sel]
    show none: "select_edge self ep v draws = None
        \<longleftrightarrow> (\<forall>n. ep ! fst (?adj ! draws n))"
      unfolding cases by auto
    show "select_edge self ep v draws = None" if "\<forall>p \<in> set ?adj. ep ! fst p"
    proof -
      have "\<forall>n. ep ! fst (?adj ! draws n)" using that r by simp
      with none show ?thesis by blast
    qed
    show "(\<exists>e. select_edge self ep v draws = Some (Inr e))
        \<longleftrightarrow> (\<exists>n. \<not> ep ! fst (?adj ! draws n))"
      unfolding cases by auto
    show "select_edge self ep v draws = Some (Inr (?adj ! draws m))"
      if "\<not> ep ! fst (?adj ! draws m) \<and> (\<forall>k < m. ep ! fst (?adj ! draws k))" for m
      using retry_loop_first_hit[OF assms(2) r, of m] that unfolding sel by blast
  }
qed

theorem C9_edge_selection_witness:
  "select_edge \<lparr>degrees = [1, 0, 1], offset = [0, 1, 1], neighbors = [(0, 2), (0, 0)]\<rparr>
      [True] 0 (\<lambda>n. 0) = None
   \<and> select_edge \<lparr>degrees = [1, 0, 1], offset = [0, 1, 1], neighbors = [(0, 2), (0, 0)]\<rparr>
      [False] 0 (\<lambda>n. 0) = Some (Inr (0, 2))
   \<and> select_edge \<lparr>degrees = [1, 0, 1], offset = [0, 1, 1], neighbors = [(0, 2), (0, 0)]\<rparr>
      [True] 1 (\<lambda>n. 0) = Some (Inl EmptyRange)"
proof -
  let ?g = "\<lparr>degrees = [1, 0, 1], offset = [0, 1, 1], neighbors = [(0, 2), (0, 0)]\<rparr>"
  have adj0: "adj_list_of ?g 0 = [(0, 2)]" and adj1: "adj_list_of ?g 1 = []"
    by (simp_all add: adj_list_of_def)
  have h0: "length (adj_list_of ?g 0) = degrees ?g ! 0"
      "\<forall>p \<in> set (adj_list_of ?g 0). fst p < length [True]"
      "\<forall>p \<in> set (adj_list_of ?g 0). fst p < length [False]"
    unfolding adj0 by simp_all
  have h1: "length (adj_list_of ?g 1) = degrees ?g ! 1"
      "\<forall>p \<in> set (adj_list_of ?g 1). fst p < length [True]"
    unfolding adj1 by simp_all
  note t = C9_edge_selection[OF h0(1,2), of "\<lambda>n. 0"]
  have "select_edge ?g [True] 0 (\<lambda>n. 0) = None"
    using t unfolding adj0 by simp
  moreover have "select_edge ?g [False] 0 (\<lambda>n. 0) = Some (Inr (0, 2))"
  proof -
    have c: "0 < degrees ?g ! 0 \<and> (\<forall>n. (\<lambda>n. 0::nat) n < degrees ?g ! 0)" by simp
    note t2 = mp[OF conjunct1[OF conjunct2[OF C9_edge_selection[OF h0(1,3), of "\<lambda>n. 0"]]] c]
    note t4 = conjunct2[OF conjunct2[OF conjunct2[OF t2]]]
    from spec[OF t4, of 0] show ?thesis unfolding adj0 by simp
  qed
  moreover have "select_edge ?g [True] 1 (\<lambda>n. 0) = Some (Inl EmptyRange)"
    using C9_edge_selection[OF h1, of "\<lambda>n. 0"] by simp
  ultimately show ?thesis by simp
qed

text \<open>
  The claim as stated fails at a vertex without incident edges: all of its (no) incident
  edges are picked, yet the step does not run forever; it ends with the error of
  \<^verbatim>\<open>torch.randint\<close> on an empty range.
\<close>

theorem C9_isolated_vertex_counterexample:
  "list_all (\<lambda>p. [True] ! fst p)
      (adj_list_of \<lparr>degrees = [1, 0, 1], offset = [0, 1, 1], neighbors = [(0, 2), (0, 0)]\<rparr> 1)
   \<and> select_edge \<lparr>degrees = [1, 0, 1], offset = [0, 1, 1], neighbors = [(0, 2), (0, 0)]\<rparr>
        [True] 1 (\<lambda>n. 0) \<noteq> None
   \<and> select_edge \<lparr>degrees = [1, 0, 1], offset = [0, 1, 1], neighbors = [(0, 2), (0, 0)]\<rparr>
        [True] 1 (\<lambda>n. 0) = Some (Inl EmptyRange)"
  by (simp add: select_edge_def adj_list_of_def)

section \<open>Merging label-aware factories\<close>

lemma label_loop_all_match:
  "\<forall>x \<in> set others. \<not> label_mismatch self x \<Longrightarrow> label_loop self i others = Inr ()"
  by (induction others arbitrary: i) (auto simp: label_mismatch_def)

lemma label_loop_first_mismatch:
  assumes "k < length others" "label_mismatch self (others ! k)"
    and "\<forall>j < k. \<not> label_mismatch self (others ! j)"
  shows "\<exists>e. label_loop self i others = Inl e \<and> is_label_mismatch e
            \<and> operand_index e = Some (i + k)"
  using assms
proof (induction others arbitrary: i k)
  case Nil
  then show ?case by simp
next
  case (Cons x xs)
  show ?case
  proof (cases k)
    case 0
    with Cons.prems show ?thesis by (auto simp: label_mismatch_def)
  next
    case (Suc k')
    from Cons.prems(3) Suc have x: "\<not> label_mismatch self x" by auto
    have "\<exists>e. label_loop self (Suc i) xs = Inl e
        \<and> is_label_mismatch e \<and> operand_index e = Some (Suc i + k')"
    proof (rule Cons.IH)
      show "k' < length xs" using Cons.prems(1) Suc by simp
      show "label_mismatch self (xs ! k')" using Cons.prems(2) Suc by simp
      show "\<forall>j<k'. \<not> label_mismatch self (xs ! j)"
        using Cons.prems(3) Suc by (metis Suc_less_eq nth_Cons_Suc)
    qed
    with x Suc show ?thesis by (auto simp: label_mismatch_def)
  qed
qed

lemma first_label_mismatch_exists:
  assumes "\<exists>i < length others. label_mismatch self (others ! i)"
  shows "\<exists>k < length others. label_mismatch self (others ! k)
            \<and> (\<forall>j < k. \<not> label_mismatch self (others ! j))"
proof -
  let ?P = "\<lambda>i. i < length others \<and> label_mismatch self (others ! i)"
  from assms have ex: "\<exists>i. ?P i" by blast
  have l: "?P (LEAST i. ?P i)" using ex by (rule LeastI_ex)
  moreover have "\<forall>j < (LEAST i. ?P i). \<not> label_mismatch self (others ! j)"
  proof (intro allI impI)
    fix j assume j: "j < (LEAST i. ?P i)"
    then have "\<not> ?P j" by (rule not_less_Least)
    moreover have "j < length others" using j l by simp
    ultimately show "\<not> label_mismatch self (others ! j)" by simp
  qed
  ultimately show ?thesis by blast
qed

text \<open>
  Claim C10. \<^verbatim>\<open>TriplesFactory.merge\<close> raises an error naming the first operand whose
  \<^verbatim>\<open>entity_to_id\<close> or \<^verbatim>\<open>relation_to_id\<close> differs from this factory's, whatever the
  counts and inverse-triple flags of the operands are: the label mappings of all operands
  are compared before the base class compares any count or flag, whose mismatch is
  reported only when all label mappings agree.
\<close>

theorem C10_labeled_merge_checks_labels_first:
  "((\<exists>i < length others. label_mismatch self (others ! i)) \<longrightarrow>
      (\<exists>e k. TriplesFactory_merge self others = Inl e \<and> is_label_mismatch e
         \<and> operand_index e = Some k \<and> k < length others
         \<and> label_mismatch self (others ! k)
         \<and> (\<forall>j < k. \<not> label_mismatch self (others ! j))))
   \<and> ((\<forall>x \<in> set others. \<not> label_mismatch self x)
        \<and> (\<exists>i < length others. config_mismatch self (others ! i)) \<longrightarrow>
      (\<exists>e k. TriplesFactory_merge self others = Inl e \<and> is_config_mismatch e
         \<and> operand_index e = Some k \<and> k < length others
         \<and> config_mismatch self (others ! k)))"
proof (intro conjI impI)
  assume "\<exists>i < length others. label_mismatch self (others ! i)"
  then obtain k where k: "k < length others" "label_mismatch self (others ! k)"
      "\<forall>j < k. \<not> label_mismatch self (others ! j)"
    using first_label_mismatch_exists by blast
  then obtain e where e: "label_loop self 0 others = Inl e"
      "is_label_mismatch e" "operand_index e = Some (0 + k)"
    using label_loop_first_mismatch by blast
  then have "TriplesFactory_merge self others = Inl e" by (simp add: TriplesFactory_merge_def)
  with e k show "\<exists>e k. TriplesFactory_merge self others = Inl e \<and> is_label_mismatch e
      \<and> operand_index e = Some k \<and> k < length others \<and> label_mismatch self (others ! k)
      \<and> (\<forall>j < k. \<not> label_mismatch self (others ! j))"
    by auto
next
  assume a: "(\<forall>x \<in> set others. \<not> label_mismatch self x)
      \<and> (\<exists>i < length others. config_mismatch self (others ! i))"
  then have l: "label_loop self 0 others = Inr ()" using label_loop_all_match by blast
  from a obtain k where k: "k < length others" "config_mismatch self (others ! k)"
      "\<forall>j < k. \<not> config_mismatch self (others ! j)"
    using first_mismatch_exists by blast
  then obtain e where e: "merge_loop self 0 others [mapped_triples self] = Inl e"
      "is_config_mismatch e" "operand_index e = Some (0 + k)"
    using merge_loop_first_mismatch by blast
  from k(1) have "others \<noteq> []" by auto
  with l e have "TriplesFactory_merge self others = Inl e"
    by (simp add: TriplesFactory_merge_def)
  with e k show "\<exists>e k. TriplesFactory_merge self others = Inl e \<and> is_config_mismatch e
      \<and> operand_index e = Some k \<and> k < length others \<and> config_mismatch self (others ! k)"
    by auto
qed

theorem C10_labeled_merge_checks_labels_first_witness:
  "TriplesFactory_merge
     \<lparr>num_entities = 2, num_relations = 1, create_inverse_triples = False,
      real_num_relations = 1, mapped_triples = [(0, 0, 1)],
      metadata = (Map.empty :: string \<rightharpoonup> int),
      entity_labeling = Labeling_init [(''a'', 0), (''b'', 1)],
      relation_labeling = Labeling_init [(''r'', 0)]\<rparr>
     [\<lparr>num_entities = 2, num_relations = 2, create_inverse_triples = True,
       real_num_relations = 1, mapped_triples = [(1, 0, 0)], metadata = Map.empty,
       entity_labeling = Labeling_init [(''b'', 1), (''a'', 0)],
       relation_labeling = Labeling_init [(''r'', 0)]\<rparr>,
      \<lparr>num_entities = 2, num_relations = 1, create_inverse_triples = False,
       real_num_relations = 1, mapped_triples = [(1, 0, 0)], metadata = Map.empty,
       entity_labeling = Labeling_init [(''a'', 1), (''b'', 0)],
       relation_labeling = Labeling_init [(''r'', 0)]\<rparr>]
   = Inl (EntityMappingMismatch 1)"
proof -
  let ?self = "\<lparr>num_entities = 2, num_relations = 1, create_inverse_triples = False,
      real_num_relations = 1, mapped_triples = [(0, 0, 1)],
      metadata = (Map.empty :: string \<rightharpoonup> int),
      entity_labeling = Labeling_init [(''a'', 0), (''b'', 1)],
      relation_labeling = Labeling_init [(''r'', 0)]\<rparr>"
  let ?o0 = "\<lparr>num_entities = 2, num_relations = 2, create_inverse_triples = True,
       real_num_relations = 1, mapped_triples = [(1, 0, 0)],
       metadata = (Map.empty :: string \<rightharpoonup> int),
       entity_labeling = Labeling_init [(''b'', 1), (''a'', 0)],
       relation_labeling = Labeling_init [(''r'', 0)]\<rparr>"
  let ?o1 = "\<lparr>num_entities = 2, num_relations = 1, create_inverse_triples = False,
       real_num_relations = 1, mapped_triples = [(1, 0, 0)],
       metadata = (Map.empty :: string \<rightharpoonup> int),
       entity_labeling = Labeling_init [(''a'', 1), (''b'', 0)],
       relation_labeling = Labeling_init [(''r'', 0)]\<rparr>"
  have m0: "\<not> label_mismatch ?self ?o0" "config_mismatch ?self ?o0"
    by (auto simp: label_mismatch_def config_mismatch_def dict_eq_def entity_to_id_def
        relation_to_id_def Labeling_init_def)
  have m1: "label_mismatch ?self ?o1"
    by (simp add: label_mismatch_def dict_eq_def entity_to_id_def relation_to_id_def
        Labeling_init_def doubleton_eq_iff)
  have "\<exists>i < length [?o0, ?o1]. label_mismatch ?self ([?o0, ?o1] ! i)"
    using m1 by (intro exI[of _ 1]) simp
  with conjunct1[OF C10_labeled_merge_checks_labels_first[of "[?o0, ?o1]" ?self]]
  obtain e k where e: "TriplesFactory_merge ?self [?o0, ?o1] = Inl e" "is_label_mismatch e"
      "operand_index e = Some k" "k < length [?o0, ?o1]" "label_mismatch ?self ([?o0, ?o1] ! k)"
    by blast
  from e(4,5) m0(1) have "k = 1" by (cases k) auto
  moreover from m0(1) have "dict_eq (relation_to_id ?o1) (relation_to_id ?self)"
    by (simp add: label_mismatch_def dict_eq_def relation_to_id_def Labeling_init_def)
  with m1 have "\<not> dict_eq (entity_to_id ?o1) (entity_to_id ?self)"
    by (simp add: label_mismatch_def)
  ultimately show ?thesis
    using e(1,2,3) m0(1) by (cases e) (auto simp: TriplesFactory_merge_def label_mismatch_def)
qed

section \<open>Round trip through the labels\<close>

lemma dict_get_Some:
  assumes "dict_get d k (- 1) = (v::int)" "0 \<le> v"
  shows "map_of d k = Some v"
  using assms by (auto simp: dict_get_def split: option.splits)

lemma invert_mapping_lookup:
  assumes "distinct (map fst d)" "(l, i) \<in> set d"
  shows "dict_get d (dict_get (invert_mapping d) i unknown) (- 1) = i"
proof -
  have "(i, l) \<in> set (invert_mapping d)"
    using assms(2) by (force simp: invert_mapping_def)
  then have "i \<in> fst ` set (invert_mapping d)" by force
  then have "map_of (invert_mapping d) i \<noteq> None" by (simp add: map_of_eq_None_iff)
  then obtain l' where l': "map_of (invert_mapping d) i = Some l'" by auto
  then have "(i, l') \<in> set (invert_mapping d)" by (rule map_of_SomeD)
  then have "(l', i) \<in> set d" by (auto simp: invert_mapping_def)
  with assms(1) have "map_of d l' = Some i" by simp
  with l' show ?thesis by (simp add: dict_get_def)
qed

lemma mapped_ids_props:
  defines "nm \<equiv> (\<lambda>(h, r, t). (h::int) < 0 \<or> (r::int) < 0 \<or> (t::int) < 0)"
  assumes "x \<in> set (map_triples_elements_to_ids triples e2id r2id)"
  shows "\<not> nm x"
    and "\<exists>lh lr lt. x = (dict_get e2id lh (- 1), dict_get r2id lr (- 1), dict_get e2id lt (- 1))"
proof -
  let ?ids = "map (\<lambda>(h, r, t). (dict_get e2id h (- 1), dict_get r2id r (- 1),
                                 dict_get e2id t (- 1))) triples"
  from assms(2) have ne: "triples \<noteq> []"
    by (auto simp: map_triples_elements_to_ids_def)
  then have x: "x \<in> set (if list_ex nm ?ids then filter (\<lambda>x. \<not> nm x) ?ids else ?ids)"
    using assms(2) unfolding map_triples_elements_to_ids_def nm_def Let_def by simp
  then show "\<not> nm x" by (auto simp: list_ex_iff split: if_splits)
  from x have "x \<in> set ?ids" by (auto split: if_splits)
  then show "\<exists>lh lr lt. x = (dict_get e2id lh (- 1), dict_get r2id lr (- 1),
      dict_get e2id lt (- 1))"
    by auto
qed

lemma mapped_ids_sorted_distinct:
  "sorted (map_triples_elements_to_ids triples e2id r2id)"
  "distinct (map_triples_elements_to_ids triples e2id r2id)"
  by (simp_all add: map_triples_elements_to_ids_def Let_def)

lemma relabel_identity:
  assumes e: "distinct (map fst e2id)" and r: "distinct (map fst r2id)"
    and x: "x \<in> set (map_triples_elements_to_ids triples e2id r2id)"
  shows "(case (case x of (h, r, t) \<Rightarrow>
              (dict_get (invert_mapping e2id) h ue, dict_get (invert_mapping r2id) r ur,
               dict_get (invert_mapping e2id) t ue))
          of (h, r, t) \<Rightarrow> (dict_get e2id h (- 1), dict_get r2id r (- 1), dict_get e2id t (- 1)))
         = x"
proof -
  from mapped_ids_props[OF x] obtain lh lr lt where
    nn: "\<not> (case x of (h, r, t) \<Rightarrow> h < 0 \<or> r < 0 \<or> t < 0)"
    and xe: "x = (dict_get e2id lh (- 1), dict_get r2id lr (- 1), dict_get e2id lt (- 1))"
    by blast
  obtain h rr t where hrt: "x = (h, rr, t)" by (cases x) auto
  with nn xe have "dict_get e2id lh (- 1) = h" "0 \<le> h" "dict_get r2id lr (- 1) = rr" "0 \<le> rr"
      "dict_get e2id lt (- 1) = t" "0 \<le> t"
    by auto
  then have "(lh, h) \<in> set e2id" "(lr, rr) \<in> set r2id" "(lt, t) \<in> set e2id"
    using dict_get_Some map_of_SomeD by metis+
  then have "dict_get e2id (dict_get (invert_mapping e2id) h ue) (- 1) = h"
      "dict_get r2id (dict_get (invert_mapping r2id) rr ur) (- 1) = rr"
      "dict_get e2id (dict_get (invert_mapping e2id) t ue) (- 1) = t"
    using invert_mapping_lookup[OF e] invert_mapping_lookup[OF r] by blast+
  then show ?thesis by (simp add: hrt)
qed

lemma round_trip_ids:
  assumes e: "distinct (map fst e2id)" and r: "distinct (map fst r2id)"
    and f: "entity_labeling f = Labeling_init e2id" "relation_labeling f = Labeling_init r2id"
    and mt: "mt = map_triples_elements_to_ids triples e2id r2id"
  shows "map_triples f (label_triples f mt ue ur) = mt"
proof (cases "mt = []")
  case True
  then show ?thesis
    by (simp add: label_triples_def map_triples_def map_triples_elements_to_ids_def)
next
  case False
  let ?ur = "case ur of None \<Rightarrow> ue | Some l \<Rightarrow> l"
  let ?lab = "\<lambda>(h, r, t). (dict_get (invert_mapping e2id) h ue,
      dict_get (invert_mapping r2id) r ?ur, dict_get (invert_mapping e2id) t ue)"
  let ?get = "\<lambda>(h, r, t). (dict_get e2id h (- 1), dict_get r2id r (- 1), dict_get e2id t (- 1))"
  let ?nm = "\<lambda>(h, r, t). (h::int) < 0 \<or> (r::int) < 0 \<or> (t::int) < 0"
  have lab: "label_triples f mt ue ur = map ?lab mt"
    using False f by (simp add: label_triples_def Labeling_label_def Labeling_init_def Let_def)
  have ids: "map ?get (map ?lab mt) = mt"
  proof -
    have "map (\<lambda>x. ?get (?lab x)) mt = map (\<lambda>x. x) mt"
    proof (rule map_cong[OF refl])
      fix x assume "x \<in> set mt"
      then have "x \<in> set (map_triples_elements_to_ids triples e2id r2id)" by (simp only: mt)
      from relabel_identity[OF e r this, of ue ?ur] show "?get (?lab x) = x" .
    qed
    then show ?thesis by (simp add: comp_def)
  qed
  have nn: "\<not> list_ex ?nm mt"
    using mapped_ids_props(1)[of _ triples e2id r2id] unfolding mt list_ex_iff by blast
  have sd: "sort (remdups mt) = mt"
    using mapped_ids_sorted_distinct[of triples e2id r2id] unfolding mt
    by (simp add: distinct_remdups_id sort_key_id_if_sorted)
  have "map_triples f (map ?lab mt) = sort (remdups (if list_ex ?nm (map ?get (map ?lab mt))
      then filter (\<lambda>x. \<not> ?nm x) (map ?get (map ?lab mt)) else map ?get (map ?lab mt)))"
    using False f
    by (simp add: map_triples_def map_triples_elements_to_ids_def entity_to_id_def
        relation_to_id_def Labeling_init_def Let_def)
  also have "\<dots> = mt" unfolding ids using nn sd by simp
  finally show ?thesis by (simp only: lab)
qed

lemma enumerate_labels_keys:
  "distinct labels \<Longrightarrow> distinct (map fst (enumerate_labels labels))"
  by (simp add: enumerate_labels_def)

lemma created_mappings_distinct:
  "distinct (map fst (create_entity_mapping triples))"
  "distinct (map fst (create_relation_mapping relations))"
  by (simp_all add: create_entity_mapping_def create_relation_mapping_def enumerate_labels_keys)

lemma TriplesFactory_init_fields:
  assumes "TriplesFactory_init mt e2id r2id civ md ne nr = Inr f"
  shows "entity_labeling f = Labeling_init e2id" "relation_labeling f = Labeling_init r2id"
    and "mapped_triples f = rows (elems mt)"
proof -
  from assms obtain core emax rmax where
    c: "CoreTriplesFactory_init mt emax rmax civ md = Inr core"
    and f: "f = CoreTriplesFactory.extend core
        \<lparr>entity_labeling = Labeling_init e2id, relation_labeling = Labeling_init r2id\<rparr>"
    by (auto simp: TriplesFactory_init_def split: sum.splits if_splits)
  from init_Inr_fields(1)[OF c] have "mapped_triples core = rows (elems mt)"
    by simp
  with f show "entity_labeling f = Labeling_init e2id"
      "relation_labeling f = Labeling_init r2id" "mapped_triples f = rows (elems mt)"
    by (simp_all add: CoreTriplesFactory.extend_def CoreTriplesFactory.defs)
qed

text \<open>
  Claim C2. For every \<^verbatim>\<open>TriplesFactory\<close> that \<^verbatim>\<open>from_labeled_triples\<close> builds (from
  dicts, whose keys are distinct), labelling its \<^verbatim>\<open>mapped_triples\<close> and mapping the labels
  back yields the same set of rows; since the stored rows are sorted and free of
  duplicates already, it even yields the same tensor.
\<close>

theorem C2_label_map_round_trip:
  assumes built: "from_labeled_triples compact_mapping triples civ ea ra compact_id filt md = Inr f"
    and ea: "\<forall>m. ea = Some m \<longrightarrow> distinct (map fst m)"
    and ra: "\<forall>m. ra = Some m \<longrightarrow> distinct (map fst m)"
    and cm: "\<forall>m. distinct (map fst m) \<longrightarrow> distinct (map fst (compact_mapping m))"
  shows "set (map_triples f (label_triples f (mapped_triples f) ue ur)) = set (mapped_triples f)
    \<and> map_triples f (label_triples f (mapped_triples f) ue ur) = mapped_triples f"
proof -
  define suspected where "suspected = filter (\<lambda>r. endswith r INVERSE_SUFFIX)
      (sort (remdups (map (fst \<circ> snd) triples)))"
  define ts where "ts = (if filt \<and> suspected \<noteq> []
      then filter (\<lambda>(h, r, t). r \<notin> set suspected) triples else triples)"
  define e0 where "e0 = (case ea of None \<Rightarrow> create_entity_mapping ts | Some m \<Rightarrow> m)"
  define e where "e = (if compact_id then compact_mapping e0 else e0)"
  define r0 where "r0 = (case ra of None \<Rightarrow> create_relation_mapping (map (fst \<circ> snd) ts)
      | Some m \<Rightarrow> m)"
  define r where "r = (if compact_id then compact_mapping r0 else r0)"
  define mt where "mt = map_triples_elements_to_ids ts e r"
  have "from_labeled_triples compact_mapping triples civ ea ra compact_id filt md
      = TriplesFactory_init (as_tensor mt) e r civ md None None"
    unfolding from_labeled_triples_def Let_def
    by (simp only: suspected_def ts_def e0_def e_def r0_def r_def mt_def)
  with built have init: "TriplesFactory_init (as_tensor mt) e r civ md None None = Inr f"
    by simp
  have "distinct (map fst e0)"
    using ea created_mappings_distinct(1) by (cases ea) (simp_all add: e0_def)
  then have de: "distinct (map fst e)" using cm by (simp add: e_def)
  have "distinct (map fst r0)"
    using ra created_mappings_distinct(2) by (cases ra) (simp_all add: r0_def)
  then have dr: "distinct (map fst r)" using cm by (simp add: r_def)
  note fields = TriplesFactory_init_fields[OF init]
  have m: "mapped_triples f = mt"
    using fields(3) by (simp add: as_tensor_def rows_flatten)
  have "map_triples f (label_triples f mt ue ur) = mt"
    using de dr fields(1,2) mt_def by (rule round_trip_ids)
  then show ?thesis by (simp add: m)
qed

theorem C2_label_map_round_trip_witness:
  "\<exists>f. from_labeled_triples (\<lambda>m. m)
         [(''b'', ''r'', ''a''), (''a'', ''r_inverse'', ''b''), (''a'', ''s'', ''c''),
          (''b'', ''r'', ''a'')]
         False None None True True (None :: (string \<rightharpoonup> int) option) = Inr f
     \<and> mapped_triples f = [(0, 1, 2), (1, 0, 0)]
     \<and> label_triples f (mapped_triples f) ''[UNKNOWN]'' None
         = [(''a'', ''s'', ''c''), (''b'', ''r'', ''a'')]
     \<and> map_triples f (label_triples f (mapped_triples f) ''[UNKNOWN]'' None) = mapped_triples f"
proof -
  let ?run = "from_labeled_triples (\<lambda>m. m)
         [(''b'', ''r'', ''a''), (''a'', ''r_inverse'', ''b''), (''a'', ''s'', ''c''),
          (''b'', ''r'', ''a'')]
         False None None True True (None :: (string \<rightharpoonup> int) option)"
  have "case ?run of Inl e \<Rightarrow> False
      | Inr f \<Rightarrow> mapped_triples f = [(0, 1, 2), (1, 0, 0)]
          \<and> label_triples f (mapped_triples f) ''[UNKNOWN]'' None
              = [(''a'', ''s'', ''c''), (''b'', ''r'', ''a'')]"
    by code_simp
  then obtain f where f: "?run = Inr f" "mapped_triples f = [(0, 1, 2), (1, 0, 0)]"
      "label_triples f (mapped_triples f) ''[UNKNOWN]'' None
         = [(''a'', ''s'', ''c''), (''b'', ''r'', ''a'')]"
    by (cases ?run) auto
  have "map_triples f (label_triples f (mapped_triples f) ''[UNKNOWN]'' None) = mapped_triples f"
    using C2_label_map_round_trip[OF f(1), of "''[UNKNOWN]''" None] by simp
  with f show ?thesis by blast
qed

end
